theory Spec2Isabelle
  imports Main "HOL-Library.Sublist"
begin

section \<open>Strings, characters and the regular-expression primitives\<close>

text \<open>
  The script \<^verbatim>\<open>.github/near_core_changelog_update.py\<close> works on Python \<^verbatim>\<open>str\<close> values.
  A Python string is modelled as a \<^typ>\<open>string\<close>; a \<^typ>\<open>char\<close> stands for a code point
  below 256. On that range Python's \<^verbatim>\<open>\d\<close> is the ten ASCII digits, \<^verbatim>\<open>\s\<close> and the
  characters removed by \<^verbatim>\<open>str.strip()\<close> are the twelve code points of \<open>space\<close> below, and
  \<^verbatim>\<open>.\<close> (without DOTALL) is every character but the line feed. Code points from 256 on,
  among them the further decimal digits that \<^verbatim>\<open>\d\<close> accepts, are outside the model.

  Each regular expression of the script is written out as the function the backtracking
  matcher computes for it. In every pattern used here a repetition is followed by an atom
  that cannot match a character of the repeated class, so only the maximal run can lead to
  a match and \<open>takeWhile\<close>/\<open>dropWhile\<close> give the run and the rest.
\<close>

abbreviation nl :: char where
  "nl \<equiv> CHR 0x0A"

abbreviation backslash :: char where
  "backslash \<equiv> CHR 0x5C"

definition digit :: "char \<Rightarrow> bool" where
  "digit c \<longleftrightarrow> c \<in> set ''0123456789''"

definition lower :: "char \<Rightarrow> bool" where
  "lower c \<longleftrightarrow> c \<in> set ''abcdefghijklmnopqrstuvwxyz''"

definition space :: "char \<Rightarrow> bool" where
  "space c \<longleftrightarrow> c \<in> set [CHR 0x09, CHR 0x0A, CHR 0x0B, CHR 0x0C, CHR 0x0D, CHR 0x1C, CHR 0x1D,
     CHR 0x1E, CHR 0x1F, CHR 0x20, CHR 0x85, CHR 0xA0]"

definition digit_or_dot :: "char \<Rightarrow> bool" where
  "digit_or_dot c \<longleftrightarrow> digit c \<or> c = CHR ''.''"

text \<open>\<^verbatim>\<open>s.lstrip()\<close> and \<^verbatim>\<open>s.strip()\<close>.\<close>

definition lstrip :: "string \<Rightarrow> string" where
  "lstrip s = dropWhile space s"

definition strip :: "string \<Rightarrow> string" where
  "strip s = rev (dropWhile space (rev (dropWhile space s)))"

text \<open>The slice \<^verbatim>\<open>s[a:b]\<close> for \<open>a \<le> b\<close>.\<close>

definition slice :: "string \<Rightarrow> nat \<Rightarrow> nat \<Rightarrow> string" where
  "slice s a b = take (b - a) (drop a s)"

text \<open>\<^verbatim>\<open>s.split(sep)\<close> for a one-character separator, and \<^verbatim>\<open>sep.join(parts)\<close>.\<close>

fun split :: "char \<Rightarrow> string \<Rightarrow> string list" where
  "split sep [] = [[]]"
| "split sep (c # cs) =
     (if c = sep then [] # split sep cs
      else (case split sep cs of [] \<Rightarrow> [[c]] | p # ps \<Rightarrow> (c # p) # ps))"

fun join :: "string \<Rightarrow> string list \<Rightarrow> string" where
  "join sep [] = []"
| "join sep [p] = p"
| "join sep (p # q # ps) = p @ sep @ join sep (q # ps)"

text \<open>
  \<^verbatim>\<open>$\<close> without MULTILINE, seen from the rest of the subject: it holds at the end of the
  string and just before a line feed that ends the string.
\<close>

definition at_end :: "string \<Rightarrow> bool" where
  "at_end r \<longleftrightarrow> r = [] \<or> r = [nl]"

text \<open>
  \<^verbatim>\<open>^\<close> with MULTILINE at offset \<open>i\<close> of \<open>s\<close>: the start of the string or just after a
  line feed. It looks at the whole subject, also when a search starts at a later offset.
\<close>

definition bol :: "string \<Rightarrow> nat \<Rightarrow> bool" where
  "bol s i \<longleftrightarrow> i = 0 \<or> s ! (i - 1) = nl"

text \<open>
  \<^verbatim>\<open>pattern.search(s, pos)\<close>: the matcher tries the offsets \<open>pos, \<dots>, len(s)\<close> in order
  and stops at the first one where the pattern matches. A pattern is given by the function
  \<open>m\<close> that yields, for an offset, the end of the match starting there (\<open>None\<close> when there is
  none); the result is the span \<open>(start, end)\<close> of the match object.
\<close>

primrec first_match :: "(nat \<Rightarrow> nat option) \<Rightarrow> nat list \<Rightarrow> (nat \<times> nat) option" where
  "first_match m [] = None"
| "first_match m (i # is) = (case m i of Some e \<Rightarrow> Some (i, e) | None \<Rightarrow> first_match m is)"

definition search :: "(nat \<Rightarrow> nat option) \<Rightarrow> string \<Rightarrow> nat \<Rightarrow> (nat \<times> nat) option" where
  "search m s pos = first_match m [pos ..< Suc (length s)]"

text \<open>A literal pattern \<open>p\<close> at offset \<open>i\<close> of \<open>s\<close>.\<close>

definition lit :: "string \<Rightarrow> string \<Rightarrow> nat \<Rightarrow> nat option" where
  "lit p s i = (if prefix p (drop i s) then Some (i + length p) else None)"

section \<open>The script\<close>

definition REPO_URL :: string where
  "REPO_URL = ''https://github.com/aurora-is-near/borealis-engine-lib''"

subsection \<open>\<^verbatim>\<open>validate_version\<close>\<close>

text \<open>
  \<^verbatim>\<open>(\-[a-z]+\.\d+)?$\<close> on the rest \<open>r\<close> of the subject after the second numeric group:
  either the optional group is skipped and \<^verbatim>\<open>$\<close> holds at once, or the group matches
  and \<^verbatim>\<open>$\<close> holds after it.
\<close>

definition match_prerelease_end :: "string \<Rightarrow> bool" where
  "match_prerelease_end r \<longleftrightarrow>
     at_end r \<or>
     (case r of
        [] \<Rightarrow> False
      | c # r1 \<Rightarrow>
          c = CHR ''-'' \<and> takeWhile lower r1 \<noteq> [] \<and>
          (case dropWhile lower r1 of
             [] \<Rightarrow> False
           | d # r2 \<Rightarrow> d = CHR ''.'' \<and> takeWhile digit r2 \<noteq> [] \<and> at_end (dropWhile digit r2)))"

text \<open>\<^verbatim>\<open>re.compile(VERSION_PATTERN).match(version)\<close> as a truth value, where
  \<^verbatim>\<open>VERSION_PATTERN = r'^[\d\.]+\-[\d\.]+(\-[a-z]+\.\d+)?$'\<close>.\<close>

definition match_VERSION_PATTERN :: "string \<Rightarrow> bool" where
  "match_VERSION_PATTERN v \<longleftrightarrow>
     takeWhile digit_or_dot v \<noteq> [] \<and>
     (case dropWhile digit_or_dot v of
        [] \<Rightarrow> False
      | c # r1 \<Rightarrow>
          c = CHR ''-'' \<and> takeWhile digit_or_dot r1 \<noteq> [] \<and>
          match_prerelease_end (dropWhile digit_or_dot r1))"

text \<open>The argument is \<open>None\<close> for Python's \<^verbatim>\<open>None\<close>; \<^verbatim>\<open>not version\<close> holds for
  \<^verbatim>\<open>None\<close> and for the empty string.\<close>

definition validate_version :: "string option \<Rightarrow> bool" where
  "validate_version version =
     (case version of
        None \<Rightarrow> False
      | Some v \<Rightarrow> if v = [] then False else match_VERSION_PATTERN v)"

subsection \<open>\<^verbatim>\<open>extract_nearcore_version\<close> and the composed lines\<close>

definition extract_nearcore_version :: "string \<Rightarrow> string" where
  "extract_nearcore_version version =
     (if CHR ''-'' \<in> set version then join ''-'' (drop 1 (split (CHR ''-'') version))
      else version)"

text \<open>The f-strings of \<^verbatim>\<open>update_changelog\<close> that compose the bullet and the link
  reference of the pull request.\<close>

definition new_entry_line :: "string \<Rightarrow> string \<Rightarrow> string" where
  "new_entry_line nearcore_version pr_number =
     ''* chore: bump nearcore to '' @ nearcore_version @ '' in [#'' @ pr_number @ '']''"

definition pr_link_line :: "string \<Rightarrow> string" where
  "pr_link_line pr_number =
     ''[#'' @ pr_number @ '']: '' @ REPO_URL @ ''/pull/'' @ pr_number"

subsection \<open>Messages and fatal errors\<close>

text \<open>
  The lines the script prints. A helper that prints an error and calls \<^verbatim>\<open>exit(1)\<close>
  returns \<open>Inl\<close> of that message; \<open>Uncaught_exception\<close> stands for an exception that
  escapes \<^verbatim>\<open>update_changelog\<close> (a traceback and exit status 1).
\<close>

datatype message =
    Invalid_version_format string
  | Variables_must_be_set
  | Not_found string
  | No_link_definitions_section
  | No_unreleased_section
  | No_previous_release
  | Already_exists string string
  | Successfully_updated string string
  | Uncaught_exception

subsection \<open>\<^verbatim>\<open>split_changelog_content\<close>\<close>

text \<open>\<^verbatim>\<open>^(?=\[Unreleased\]:)\<close> with MULTILINE: an empty match at a line start that is
  followed by the link label.\<close>

definition link_section_at :: "string \<Rightarrow> nat \<Rightarrow> nat option" where
  "link_section_at s i = (if bol s i \<and> prefix ''[Unreleased]:'' (drop i s) then Some i else None)"

definition split_changelog_content :: "string \<Rightarrow> message + (string \<times> string)" where
  "split_changelog_content content =
     (case search (link_section_at content) content 0 of
        None \<Rightarrow> Inl No_link_definitions_section
      | Some (start, _) \<Rightarrow> Inr (take start content, drop start content))"

subsection \<open>\<^verbatim>\<open>find_unreleased_section\<close>\<close>

text \<open>\<^verbatim>\<open>UNRELEASED_SECTION_PATTERN = r'^## \[Unreleased\]'\<close> with MULTILINE.\<close>

definition unreleased_at :: "string \<Rightarrow> nat \<Rightarrow> nat option" where
  "unreleased_at s i = (if bol s i then lit ''## [Unreleased]'' s i else None)"

definition find_unreleased_section :: "string \<Rightarrow> message + (nat \<times> nat)" where
  "find_unreleased_section upper_section =
     (case search (unreleased_at upper_section) upper_section 0 of
        None \<Rightarrow> Inl No_unreleased_section
      | Some unreleased_match \<Rightarrow> Inr unreleased_match)"

subsection \<open>\<^verbatim>\<open>find_previous_version\<close>\<close>

text \<open>The class \<^verbatim>\<open>[\d\.\-a-z]\<close>.\<close>

definition label_char :: "char \<Rightarrow> bool" where
  "label_char c \<longleftrightarrow> digit c \<or> c = CHR ''.'' \<or> c = CHR ''-'' \<or> lower c"

text \<open>\<^verbatim>\<open>RELEASE_ENTRY_PATTERN = r'^## \[([\d\.\-a-z]+)\]'\<close> with MULTILINE. Group 1 is the
  text between the four characters \<^verbatim>\<open>## [\<close> and the closing bracket that ends the match.\<close>

definition release_at :: "string \<Rightarrow> nat \<Rightarrow> nat option" where
  "release_at s i =
     (if bol s i \<and> prefix ''## ['' (drop i s) then
        (let label = takeWhile label_char (drop (i + 4) s)
         in if label \<noteq> [] \<and> prefix '']'' (drop (i + 4 + length label) s)
            then Some (i + 4 + length label + 1) else None)
      else None)"

definition group1 :: "string \<Rightarrow> nat \<times> nat \<Rightarrow> string" where
  "group1 s m = slice s (fst m + 4) (snd m - 1)"

text \<open>\<^verbatim>\<open>next(releases)\<close> is the first match at or after \<^verbatim>\<open>unreleased_match.end()\<close>; the
  \<^verbatim>\<open>StopIteration\<close> branch is the error.\<close>

definition find_previous_version :: "string \<Rightarrow> nat \<times> nat \<Rightarrow> message + (string \<times> nat \<times> string)" where
  "find_previous_version upper_section unreleased_match =
     (case search (release_at upper_section) upper_section (snd unreleased_match) of
        None \<Rightarrow> Inl No_previous_release
      | Some first_release \<Rightarrow>
          (let prev_version = group1 upper_section first_release;
               unreleased_section_end = fst first_release;
               unreleased_content =
                 strip (slice upper_section (snd unreleased_match) unreleased_section_end)
           in Inr (prev_version, unreleased_section_end, unreleased_content)))"

subsection \<open>\<^verbatim>\<open>create_new_entry\<close>\<close>

text \<open>\<^verbatim>\<open>CHANGES_SECTION_PATTERN = r'#+\s+Changes'\<close>: a run of \<^verbatim>\<open>#\<close>, a run of white space
  and the word, anywhere in the subject.\<close>

definition changes_at :: "string \<Rightarrow> nat \<Rightarrow> nat option" where
  "changes_at s i =
     (let hashes = takeWhile (\<lambda>c. c = CHR ''#'') (drop i s);
          r = drop (i + length hashes) s;
          blanks = takeWhile space r
      in if hashes \<noteq> [] \<and> blanks \<noteq> [] \<and> prefix ''Changes'' (drop (length blanks) r)
         then Some (i + length hashes + length blanks + 7) else None)"

definition create_new_entry :: "string \<Rightarrow> string \<Rightarrow> string" where
  "create_new_entry unreleased_content new_entry =
     (if unreleased_content = [] then ''### Changes'' @ [nl, nl] @ new_entry
      else
        (case search (changes_at unreleased_content) unreleased_content 0 of
           Some changes_match \<Rightarrow>
             (let changes_end = snd changes_match
              in take changes_end unreleased_content @ [nl, nl] @ new_entry @ [nl] @
                 lstrip (drop changes_end unreleased_content))
         | None \<Rightarrow> ''### Changes'' @ [nl, nl] @ new_entry @ [nl, nl] @ unreleased_content))"

subsection \<open>\<^verbatim>\<open>add_pr_link\<close>\<close>

text \<open>\<^verbatim>\<open>PR_LINK_PATTERN = r'\[#\d+\]: ' + re.escape(REPO_URL) + r'/pull/\d+'\<close>.\<close>

definition pr_link_at :: "string \<Rightarrow> nat \<Rightarrow> nat option" where
  "pr_link_at s i =
     (if prefix ''[#'' (drop i s) then
        (let number = takeWhile digit (drop (i + 2) s);
             j = i + 2 + length number;
             middle = '']: '' @ REPO_URL @ ''/pull/'';
             pull = takeWhile digit (drop (j + length middle) s)
         in if number \<noteq> [] \<and> prefix middle (drop j s) \<and> pull \<noteq> []
            then Some (j + length middle + length pull) else None)
      else None)"

definition add_pr_link :: "string \<Rightarrow> string \<Rightarrow> string" where
  "add_pr_link content pr_link =
     (case search (pr_link_at content) content 0 of
        Some pr_links_exist \<Rightarrow> content @ [nl] @ pr_link
      | None \<Rightarrow> content @ [nl, nl] @ pr_link)"

subsection \<open>\<^verbatim>\<open>update_link_definitions\<close>\<close>

text \<open>
  \<^verbatim>\<open>re.sub(r'\[Unreleased\]: .*', repl, s)\<close> has no \<^verbatim>\<open>count\<close>: it walks through the
  subject and replaces every match, resuming after the end of each one. A match is the
  fourteen characters of the label and the rest of the line, up to and without its line feed.
\<close>

function sub_unreleased_link :: "string \<Rightarrow> string \<Rightarrow> string" where
  "sub_unreleased_link repl [] = []"
| "sub_unreleased_link repl (c # cs) =
     (if prefix ''[Unreleased]: '' (c # cs)
      then repl @ sub_unreleased_link repl (dropWhile (\<lambda>x. x \<noteq> nl) (drop 14 (c # cs)))
      else c # sub_unreleased_link repl cs)"
  by pat_completeness auto
termination
proof (relation "measure (\<lambda>(repl, s). length s)", goal_cases)
  case (2 repl c cs)
  have "length (dropWhile (\<lambda>x. x \<noteq> nl) (drop 14 (c # cs))) \<le> length (drop 14 (c # cs))"
    by (rule length_dropWhile_le)
  then show ?case by simp
qed simp_all

text \<open>
  \<^verbatim>\<open>re.sub(r'(\[Unreleased\]: .*\n)', '\\1' + new_line, s)\<close>, again for every match. Here a
  match needs the line feed that ends the line: the label on a last line that has no line
  feed is not a match. Group 1 is the whole match, so the replacement is the matched line,
  its line feed, and \<open>new_line\<close>.
\<close>

function insert_after_unreleased_link :: "string \<Rightarrow> string \<Rightarrow> string" where
  "insert_after_unreleased_link new_line [] = []"
| "insert_after_unreleased_link new_line (c # cs) =
     (if prefix ''[Unreleased]: '' (c # cs) \<and> dropWhile (\<lambda>x. x \<noteq> nl) (drop 14 (c # cs)) \<noteq> []
      then ''[Unreleased]: '' @ takeWhile (\<lambda>x. x \<noteq> nl) (drop 14 (c # cs)) @ [nl] @ new_line @
           insert_after_unreleased_link new_line
             (drop 1 (dropWhile (\<lambda>x. x \<noteq> nl) (drop 14 (c # cs))))
      else c # insert_after_unreleased_link new_line cs)"
  by pat_completeness auto
termination
proof (relation "measure (\<lambda>(new_line, s). length s)", goal_cases)
  case (2 new_line c cs)
  have "length (dropWhile (\<lambda>x. x \<noteq> nl) (drop 14 (c # cs))) \<le> length (drop 14 (c # cs))"
    by (rule length_dropWhile_le)
  then show ?case by simp
qed simp_all

text \<open>
  Both replacement strings are templates: \<^verbatim>\<open>re.sub\<close> reads a backslash in them as an
  escape (and raises \<^verbatim>\<open>re.error\<close> on a bad one), before it looks for a match. The two
  labels are pasted into the templates. The model covers the labels without a backslash,
  where the templates are literal text but for the group reference; it is \<open>None\<close> on the
  others. \<^verbatim>\<open>update_changelog\<close> only passes labels without a backslash.
\<close>

definition update_link_definitions :: "string \<Rightarrow> string \<Rightarrow> string \<Rightarrow> string option" where
  "update_link_definitions bottom_section new_version prev_version =
     (if backslash \<in> set new_version \<or> backslash \<in> set prev_version then None
      else
        (let bottom_section' =
               sub_unreleased_link
                 (''[Unreleased]: '' @ REPO_URL @ ''/'' @ new_version @ ''...main'') bottom_section;
             new_link_def =
               ''['' @ new_version @ '']: '' @ REPO_URL @ ''/compare/'' @ prev_version @
               ''...'' @ new_version
         in Some (insert_after_unreleased_link (new_link_def @ [nl]) bottom_section')))"

subsection \<open>\<^verbatim>\<open>update_changelog\<close>\<close>

text \<open>
  What a run reads: the three environment variables (\<open>None\<close> when unset), the UTC date as
  \<^verbatim>\<open>strftime("%Y-%m-%d")\<close> gives it, and the files, a map from a path to the text of the
  file there. A path is the string handed to \<^verbatim>\<open>Path\<close>, and the text of a file is the text
  that \<^verbatim>\<open>read_text\<close> returns and \<^verbatim>\<open>write_text\<close> takes. Not modelled are: the normalisation of
  a path by \<^verbatim>\<open>pathlib\<close>, the translation of \<^verbatim>\<open>CR LF\<close> and \<^verbatim>\<open>CR\<close> into a line feed on reading,
  a write that fails, directories, unreadable files and undecodable bytes.
\<close>

record world =
  NEW_VERSION :: "string option"
  PR_NUMBER :: "string option"
  CHANGELOG_PATH :: "string option"
  today :: string
  files :: "string \<Rightarrow> string option"

text \<open>What a run leaves: the exit status of the process, the lines printed, the files.\<close>

record outcome =
  exit_status :: nat
  printed :: "message list"
  files_after :: "string \<Rightarrow> string option"

text \<open>Python's truth value of \<^verbatim>\<open>os.environ.get(name)\<close>.\<close>

definition truthy :: "string option \<Rightarrow> bool" where
  "truthy v = (case v of None \<Rightarrow> False | Some s \<Rightarrow> s \<noteq> [])"

definition get_date_and_path :: "world \<Rightarrow> message + (string \<times> string)" where
  "get_date_and_path w =
     (let custom_path = CHANGELOG_PATH w;
          changelog_path = (if truthy custom_path then the custom_path else ''CHANGES.md'')
      in if files w changelog_path = None then Inl (Not_found changelog_path)
         else Inr (today w, changelog_path))"

text \<open>
  \<^verbatim>\<open>re.sub(r'## \[Unreleased\].*?(?=## \[|$)', empty_unreleased, s, count=1, flags=re.DOTALL)\<close>:
  the first occurrence of the heading text, wherever it stands, and after it the shortest
  stretch of any characters that ends where \<^verbatim>\<open>## [\<close> follows or where \<^verbatim>\<open>$\<close> holds.
\<close>

definition unreleased_stretch_at :: "string \<Rightarrow> nat \<Rightarrow> nat option" where
  "unreleased_stretch_at s i =
     (case lit ''## [Unreleased]'' s i of
        None \<Rightarrow> None
      | Some j \<Rightarrow>
          map_option fst
            (search (\<lambda>k. if prefix ''## ['' (drop k s) \<or> at_end (drop k s) then Some k else None)
               s j))"

definition reset_unreleased :: "string \<Rightarrow> string" where
  "reset_unreleased s =
     (case search (unreleased_stretch_at s) s 0 of
        None \<Rightarrow> s
      | Some (start, stop) \<Rightarrow> take start s @ ''## [Unreleased]'' @ [nl, nl] @ drop stop s)"

text \<open>Lines 142 to 175: the new text of the file, computed from the old one.\<close>

definition updated_content :: "string \<Rightarrow> string \<Rightarrow> string \<Rightarrow> string \<Rightarrow> message + string" where
  "updated_content new_version pr_number current_date content =
     (case split_changelog_content content of
        Inl e \<Rightarrow> Inl e
      | Inr (upper_section, bottom_section) \<Rightarrow>
     (case find_unreleased_section upper_section of
        Inl e \<Rightarrow> Inl e
      | Inr unreleased_match \<Rightarrow>
     (case find_previous_version upper_section unreleased_match of
        Inl e \<Rightarrow> Inl e
      | Inr (prev_version, unreleased_section_end, unreleased_content) \<Rightarrow>
     (let nearcore_version = extract_nearcore_version new_version;
          new_entry = new_entry_line nearcore_version pr_number;
          pr_link = pr_link_line pr_number;
          modified_unreleased_content =
            add_pr_link (create_new_entry unreleased_content new_entry) pr_link;
          new_version_section =
            ''## ['' @ new_version @ ''] '' @ current_date @ [nl, nl] @ modified_unreleased_content;
          updated_upper_section =
            reset_unreleased
              (take (snd unreleased_match) upper_section @ [nl, nl] @ new_version_section @
               [nl, nl] @ drop unreleased_section_end upper_section)
      in case update_link_definitions bottom_section new_version prev_version of
           None \<Rightarrow> Inl Uncaught_exception
         | Some updated_bottom_section \<Rightarrow> Inr (updated_upper_section @ updated_bottom_section)))))"

definition update_changelog :: "world \<Rightarrow> outcome" where
  "update_changelog w =
     (let new_version = NEW_VERSION w; pr_number = PR_NUMBER w;
          failed = (\<lambda>e. \<lparr>exit_status = 1, printed = [e], files_after = files w\<rparr>)
      in if truthy new_version \<and> \<not> validate_version new_version
         then failed (Invalid_version_format (the new_version))
         else if \<not> truthy new_version \<or> \<not> truthy pr_number
         then failed Variables_must_be_set
         else
           (case get_date_and_path w of
              Inl e \<Rightarrow> failed e
            | Inr (date, changelog_path) \<Rightarrow>
                (let content = the (files w changelog_path)
                 in if search (lit (''## ['' @ the new_version @ '']'') content) content 0 \<noteq> None
                    then \<lparr>exit_status = 0,
                          printed = [Already_exists (the new_version) changelog_path],
                          files_after = files w\<rparr>
                    else
                      (case updated_content (the new_version) (the pr_number) date content of
                         Inl e \<Rightarrow> failed e
                       | Inr text \<Rightarrow>
                           \<lparr>exit_status = 0,
                            printed = [Successfully_updated changelog_path (the new_version)],
                            files_after = (files w)(changelog_path \<mapsto> text)\<rparr>))))"

section \<open>Vocabulary of the properties\<close>

text \<open>A line of \<open>s\<close> begins at offset \<open>i\<close>, and begins with the text \<open>p\<close>.\<close>

definition begins_line :: "string \<Rightarrow> nat \<Rightarrow> string \<Rightarrow> bool" where
  "begins_line s i p \<longleftrightarrow>
     i \<le> length s \<and> (i = 0 \<or> s ! (i - 1) = nl) \<and> prefix p (drop i s)"

text \<open>
  The shape of a version identifier in the words of the specification: digits and dots, a
  hyphen, digits and dots, and optionally a hyphen, lower-case letters, a dot and digits.
\<close>

definition version_shape :: "string \<Rightarrow> bool" where
  "version_shape v \<longleftrightarrow>
     (\<exists>a b. a \<noteq> [] \<and> (\<forall>c\<in>set a. digit_or_dot c) \<and> b \<noteq> [] \<and> (\<forall>c\<in>set b. digit_or_dot c) \<and>
        (v = a @ ''-'' @ b \<or>
         (\<exists>l d. l \<noteq> [] \<and> (\<forall>c\<in>set l. lower c) \<and> d \<noteq> [] \<and> (\<forall>c\<in>set d. digit c) \<and>
            v = a @ ''-'' @ b @ ''-'' @ l @ ''.'' @ d)))"

text \<open>The rest after the second numeric group: nothing, or the pre-release suffix.\<close>

definition suffix_shape :: "string \<Rightarrow> bool" where
  "suffix_shape r \<longleftrightarrow>
     r = [] \<or> (\<exists>l d. l \<noteq> [] \<and> (\<forall>c\<in>set l. lower c) \<and> d \<noteq> [] \<and> (\<forall>c\<in>set d. digit c) \<and>
                r = ''-'' @ l @ ''.'' @ d)"

text \<open>
  A heading, of any level, whose text is \<^verbatim>\<open>Changes\<close>: a line made of a run of \<^verbatim>\<open>#\<close>, white
  space, and that word with nothing but white space around it.
\<close>

definition changes_heading :: "string \<Rightarrow> bool" where
  "changes_heading l \<longleftrightarrow>
     (let hashes = takeWhile (\<lambda>c. c = CHR ''#'') l; r = dropWhile (\<lambda>c. c = CHR ''#'') l
      in hashes \<noteq> [] \<and> takeWhile space r \<noteq> [] \<and> strip r = ''Changes'')"

definition has_changes_heading :: "string \<Rightarrow> bool" where
  "has_changes_heading body \<longleftrightarrow> list_ex changes_heading (split nl body)"

text \<open>
  A line that matches the link-reference pattern of this repository, a body one of whose
  lines does, and a result in which the new link line stands directly below the last line of
  the body, that line being such a link line.
\<close>

definition link_reference_line :: "string \<Rightarrow> bool" where
  "link_reference_line l \<longleftrightarrow> search (pr_link_at l) l 0 \<noteq> None"

definition some_line_matches :: "string \<Rightarrow> bool" where
  "some_line_matches content \<longleftrightarrow> list_ex link_reference_line (split nl content)"

definition appended_below_link_block :: "string \<Rightarrow> string \<Rightarrow> string \<Rightarrow> bool" where
  "appended_below_link_block content pr_link result \<longleftrightarrow>
     result = content @ [nl] @ pr_link \<and> link_reference_line (last (split nl content))"

text \<open>The text of a match of the link-reference pattern with the least number of digits at its end.\<close>

definition pr_link_text :: "string \<Rightarrow> char \<Rightarrow> string" where
  "pr_link_text n d = ''[#'' @ n @ '']: '' @ REPO_URL @ ''/pull/'' @ [d]"




text \<open>
  The path of the changelog (the override, or the default name), the heading of a version,
  and the three ways a run ends: with a fatal error, with the report that the version is
  already there, and with the file written.
\<close>

definition changelog_path :: "world \<Rightarrow> string" where
  "changelog_path w =
     (case CHANGELOG_PATH w of
        None \<Rightarrow> ''CHANGES.md''
      | Some p \<Rightarrow> if p = [] then ''CHANGES.md'' else p)"

definition version_heading :: "string \<Rightarrow> string" where
  "version_heading v = ''## ['' @ v @ '']''"

definition skipped :: "world \<Rightarrow> string \<Rightarrow> outcome" where
  "skipped w v =
     \<lparr>exit_status = 0, printed = [Already_exists v (changelog_path w)], files_after = files w\<rparr>"

definition written :: "world \<Rightarrow> string \<Rightarrow> string \<Rightarrow> outcome" where
  "written w v text =
     \<lparr>exit_status = 0, printed = [Successfully_updated (changelog_path w) v],
      files_after = (files w)(changelog_path w \<mapsto> text)\<rparr>"

definition failed :: "world \<Rightarrow> message \<Rightarrow> outcome" where
  "failed w e = \<lparr>exit_status = 1, printed = [e], files_after = files w\<rparr>"

text \<open>
  The diagnostics; a line of the upper region that is a release heading; a document that
  lacks the link-definition section, the Unreleased heading or a prior release heading.
\<close>

fun diagnostic :: "message \<Rightarrow> bool" where
  "diagnostic (Invalid_version_format v) = True"
| "diagnostic Variables_must_be_set = True"
| "diagnostic (Not_found p) = True"
| "diagnostic No_link_definitions_section = True"
| "diagnostic No_unreleased_section = True"
| "diagnostic No_previous_release = True"
| "diagnostic e = False"

definition release_heading :: "string \<Rightarrow> nat \<Rightarrow> bool" where
  "release_heading s i \<longleftrightarrow>
     begins_line s i ''## ['' \<and>
     (\<exists>label rest. label \<noteq> [] \<and> (\<forall>c\<in>set label. label_char c) \<and>
        drop i s = ''## ['' @ label @ '']'' @ rest)"

definition malformed :: "string \<Rightarrow> bool" where
  "malformed content \<longleftrightarrow>
     (\<nexists>i. begins_line content i ''[Unreleased]:'') \<or>
     (\<exists>upper bottom. split_changelog_content content = Inr (upper, bottom) \<and>
        ((\<nexists>i. begins_line upper i ''## [Unreleased]'') \<or>
         (\<exists>us ue. find_unreleased_section upper = Inr (us, ue) \<and>
            (\<nexists>i. ue \<le> i \<and> release_heading upper i))))"

text \<open>A small changelog and a run on it, for the examples.\<close>

definition example_upper :: string where
  "example_upper =
     ''# Log'' @ [nl, nl] @ ''## [Unreleased]'' @ [nl, nl] @ ''* foo'' @ [nl, nl] @
     ''## [1.0-2.0] 2024-01-01'' @ [nl, nl] @ ''* old'' @ [nl, nl]"

definition example_bottom :: string where
  "example_bottom = ''[Unreleased]: x'' @ [nl] @ ''[1.0-2.0]: y'' @ [nl]"

definition example_world :: world where
  "example_world =
     \<lparr>NEW_VERSION = Some ''1.2.3-4.5.6'', PR_NUMBER = Some ''42'', CHANGELOG_PATH = None,
      today = ''2026-11-04'', files = [''CHANGES.md'' \<mapsto> example_upper @ example_bottom]\<rparr>"

text \<open>A changelog whose first line mentions the Unreleased heading.\<close>

definition mention_upper :: string where
  "mention_upper =
     ''See `## [Unreleased]`.'' @ [nl, nl] @ ''## [Unreleased]'' @ [nl, nl] @
     ''## [1.0-2.0] 2024-01-01'' @ [nl, nl]"

definition mention_bottom :: string where
  "mention_bottom = ''[Unreleased]: x'' @ [nl]"

section \<open>Properties\<close>

subsection \<open>Searching\<close>

lemma first_match_upt_Some:
  "first_match m [a..<b] = Some (i, e) \<longleftrightarrow>
     a \<le> i \<and> i < b \<and> m i = Some e \<and> (\<forall>j. a \<le> j \<and> j < i \<longrightarrow> m j = None)"
proof (induction "b - a" arbitrary: a)
  case 0
  then show ?case by auto
next
  case (Suc n)
  then have ab: "a < b" and n: "n = b - Suc a" by auto
  have IH: "first_match m [Suc a..<b] = Some (i, e) \<longleftrightarrow>
     Suc a \<le> i \<and> i < b \<and> m i = Some e \<and> (\<forall>j. Suc a \<le> j \<and> j < i \<longrightarrow> m j = None)"
    using Suc.hyps(1) [OF n] .
  show ?case
  proof (cases "m a")
    case None
    then have "first_match m [a..<b] = first_match m [Suc a..<b]"
      using ab by (simp add: upt_conv_Cons)
    moreover have "(\<forall>j. a \<le> j \<and> j < i \<longrightarrow> m j = None) \<longleftrightarrow> (\<forall>j. Suc a \<le> j \<and> j < i \<longrightarrow> m j = None)"
      using None by (metis Suc_leI le_neq_implies_less Suc_leD)
    moreover have "m i = Some e \<Longrightarrow> a \<le> i \<longleftrightarrow> Suc a \<le> i"
      using None by (metis Suc_leI le_neq_implies_less Suc_leD option.distinct(1))
    ultimately show ?thesis using IH by auto
  next
    case (Some e')
    then have "first_match m [a..<b] = Some (a, e')"
      using ab by (simp add: upt_conv_Cons)
    moreover have "i = a" if "m i = Some e" "\<forall>j. a \<le> j \<and> j < i \<longrightarrow> m j = None" "a \<le> i"
    proof (rule ccontr)
      assume "i \<noteq> a"
      then have "a \<le> a \<and> a < i" using that(3) by simp
      then have "m a = None" using that(2) by blast
      then show False using Some by simp
    qed
    ultimately show ?thesis using Some ab by auto
  qed
qed

lemma first_match_None: "first_match m xs = None \<longleftrightarrow> (\<forall>x\<in>set xs. m x = None)"
  by (induction xs) (auto split: option.splits)

lemma search_Some_iff:
  "search m s pos = Some (i, e) \<longleftrightarrow>
     pos \<le> i \<and> i \<le> length s \<and> m i = Some e \<and> (\<forall>j. pos \<le> j \<and> j < i \<longrightarrow> m j = None)"
  unfolding search_def first_match_upt_Some by auto

lemma search_None_iff:
  "search m s pos = None \<longleftrightarrow> (\<forall>j. pos \<le> j \<and> j \<le> length s \<longrightarrow> m j = None)"
  unfolding search_def first_match_None by auto

lemma split_not_Nil: "split sep s \<noteq> []"
  by (induction s) (auto split: list.splits)

lemma split_append_sep: "sep \<notin> set a \<Longrightarrow> split sep (a @ sep # b) = a # split sep b"
  by (induction a) (auto split: list.splits)

lemma join_split: "join [sep] (split sep s) = s"
proof (induction s)
  case Nil
  then show ?case by simp
next
  case (Cons c cs)
  obtain p ps where sp: "split sep cs = p # ps"
    using split_not_Nil [of sep cs] by (cases "split sep cs") auto
  show ?case
  proof (cases "c = sep")
    case True
    then show ?thesis using Cons sp by simp
  next
    case False
    then show ?thesis using Cons sp by (cases ps) auto
  qed
qed

subsection \<open>The dependency version and the bullet line\<close>

text \<open>
  Claim C8. When the version identifier holds a hyphen, \<^verbatim>\<open>extract_nearcore_version\<close> returns
  what follows the first hyphen: the leading component and its hyphen are stripped, so that
  \<^verbatim>\<open>1.2.3-4.5.6-rc.1\<close> gives \<^verbatim>\<open>4.5.6-rc.1\<close>. Without a hyphen the identifier is returned as
  it is. The bullet line is \<^verbatim>\<open>* chore: bump nearcore to <dependency-version> in [#<pr-number>]\<close>.
\<close>

theorem extract_nearcore_version_strips_semver:
  "(CHR ''-'' \<notin> set a \<longrightarrow> extract_nearcore_version (a @ ''-'' @ b) = b) \<and>
   (CHR ''-'' \<notin> set v \<longrightarrow> extract_nearcore_version v = v) \<and>
   extract_nearcore_version ''1.2.3-4.5.6-rc.1'' = ''4.5.6-rc.1'' \<and>
   new_entry_line (extract_nearcore_version v) pr_number =
     ''* chore: bump nearcore to '' @ extract_nearcore_version v @ '' in [#'' @ pr_number @ '']''"
proof -
  have 1: "extract_nearcore_version (a @ ''-'' @ b) = b" if "CHR ''-'' \<notin> set a" for a b
    using that by (simp add: extract_nearcore_version_def split_append_sep join_split)
  have 2: "extract_nearcore_version v = v" if "CHR ''-'' \<notin> set v"
    using that by (simp add: extract_nearcore_version_def)
  have 3: "extract_nearcore_version ''1.2.3-4.5.6-rc.1'' = ''4.5.6-rc.1''"
    using 1 [of "''1.2.3''" "''4.5.6-rc.1''"] by simp
  show ?thesis using 1 [of a b] 2 3 by (simp add: new_entry_line_def)
qed

theorem extract_nearcore_version_witness:
  "extract_nearcore_version (''0.9'' @ ''-'' @ ''2.1.0'') = ''2.1.0'' \<and>
   extract_nearcore_version ''123'' = ''123'' \<and>
   new_entry_line (extract_nearcore_version ''123'') ''7'' =
     ''* chore: bump nearcore to 123 in [#7]''"
  using extract_nearcore_version_strips_semver [of "''0.9''" "''2.1.0''" "''123''" "''7''"]
  by (simp add: new_entry_line_def)

subsection \<open>The document splitter\<close>

lemma link_section_at_iff:
  "i \<le> length s \<Longrightarrow> link_section_at s i = Some e \<longleftrightarrow> e = i \<and> begins_line s i ''[Unreleased]:''"
  by (auto simp: link_section_at_def begins_line_def bol_def)

lemma link_section_at_None:
  "i \<le> length s \<Longrightarrow> link_section_at s i = None \<longleftrightarrow> \<not> begins_line s i ''[Unreleased]:''"
  by (auto simp: link_section_at_def begins_line_def bol_def)

text \<open>
  Claim C9. When some line of the document begins with the link label \<^verbatim>\<open>[Unreleased]\<close>
  followed by a colon, \<^verbatim>\<open>split_changelog_content\<close> returns a pair \<open>(upper, bottom)\<close> whose
  concatenation is the document, character for character, and \<open>bottom\<close> starts at the
  first such line: a line begins there with the label, and at no earlier offset. When no
  line begins so, the function ends the run with the error of the missing link section.
\<close>

theorem split_changelog_content_partition:
  "((\<exists>i. begins_line content i ''[Unreleased]:'') \<longrightarrow>
      (\<exists>upper bottom.
         split_changelog_content content = Inr (upper, bottom) \<and>
         upper @ bottom = content \<and>
         begins_line content (length upper) ''[Unreleased]:'' \<and>
         prefix ''[Unreleased]:'' bottom \<and>
         (\<forall>j < length upper. \<not> begins_line content j ''[Unreleased]:''))) \<and>
   ((\<nexists>i. begins_line content i ''[Unreleased]:'') \<longrightarrow>
      split_changelog_content content = Inl No_link_definitions_section)"
proof (intro conjI impI)
  assume "\<exists>i. begins_line content i ''[Unreleased]:''"
  then obtain i where i: "begins_line content i ''[Unreleased]:''" ..
  then have "i \<le> length content" by (simp add: begins_line_def)
  with i have "link_section_at content i \<noteq> None"
    by (simp add: link_section_at_None)
  then have "search (link_section_at content) content 0 \<noteq> None"
    using \<open>i \<le> length content\<close> by (auto simp: search_None_iff)
  then obtain k e where ke: "search (link_section_at content) content 0 = Some (k, e)"
    by auto
  then have k: "k \<le> length content" "link_section_at content k = Some e"
    and first: "\<forall>j. j < k \<longrightarrow> link_section_at content j = None"
    by (auto simp: search_Some_iff)
  from k have bk: "begins_line content k ''[Unreleased]:''"
    by (simp add: link_section_at_iff)
  have "\<forall>j < k. \<not> begins_line content j ''[Unreleased]:''"
    using first k(1) by (auto simp: link_section_at_None)
  moreover have "split_changelog_content content = Inr (take k content, drop k content)"
    using ke by (simp add: split_changelog_content_def)
  moreover have "length (take k content) = k" using k(1) by simp
  moreover have "prefix ''[Unreleased]:'' (drop k content)"
    using bk by (simp add: begins_line_def)
  ultimately show "\<exists>upper bottom.
         split_changelog_content content = Inr (upper, bottom) \<and>
         upper @ bottom = content \<and>
         begins_line content (length upper) ''[Unreleased]:'' \<and>
         prefix ''[Unreleased]:'' bottom \<and>
         (\<forall>j < length upper. \<not> begins_line content j ''[Unreleased]:'')"
    using bk by (intro exI [of _ "take k content"] exI [of _ "drop k content"]) simp
next
  assume "\<nexists>i. begins_line content i ''[Unreleased]:''"
  then have "search (link_section_at content) content 0 = None"
    by (auto simp: search_None_iff link_section_at_None)
  then show "split_changelog_content content = Inl No_link_definitions_section"
    by (simp add: split_changelog_content_def)
qed

theorem split_changelog_content_witness:
  "begins_line (''## [Unreleased]'' @ [nl] @ ''[Unreleased]: u'') 16 ''[Unreleased]:'' \<and>
   (\<exists>upper bottom.
      split_changelog_content (''## [Unreleased]'' @ [nl] @ ''[Unreleased]: u'') = Inr (upper, bottom) \<and>
      upper @ bottom = ''## [Unreleased]'' @ [nl] @ ''[Unreleased]: u'' \<and>
      prefix ''[Unreleased]:'' bottom) \<and>
   (\<nexists>i. begins_line ''abc'' i ''[Unreleased]:'') \<and>
   split_changelog_content ''abc'' = Inl No_link_definitions_section"
proof -
  have 1: "begins_line (''## [Unreleased]'' @ [nl] @ ''[Unreleased]: u'') 16 ''[Unreleased]:''"
    by (simp add: begins_line_def)
  have 2: "\<nexists>i. begins_line ''abc'' i ''[Unreleased]:''"
  proof
    assume "\<exists>i. begins_line ''abc'' i ''[Unreleased]:''"
    then obtain i where "prefix ''[Unreleased]:'' (drop i ''abc'')"
      unfolding begins_line_def by blast
    then have "length ''[Unreleased]:'' \<le> length (drop i ''abc'')"
      using prefix_length_le by blast
    then show False by simp
  qed
  show ?thesis
    using 1 2 split_changelog_content_partition [of "''## [Unreleased]'' @ [nl] @ ''[Unreleased]: u''"]
      split_changelog_content_partition [of "''abc''"]
    by blast
qed

subsection \<open>Runs of a character class\<close>

lemma takeWhile_run: "\<forall>c\<in>set xs. P c \<Longrightarrow> \<not> P y \<Longrightarrow> takeWhile P (xs @ y # ys) = xs"
  by (induction xs) auto

lemma dropWhile_run: "\<forall>c\<in>set xs. P c \<Longrightarrow> \<not> P y \<Longrightarrow> dropWhile P (xs @ y # ys) = y # ys"
  by (induction xs) auto

lemma dropWhile_all: "\<forall>c\<in>set xs. P c \<Longrightarrow> dropWhile P xs = []"
  by (induction xs) auto

lemma not_class [simp]:
  "\<not> digit_or_dot (CHR ''-'')" "\<not> digit_or_dot nl" "\<not> lower (CHR ''.'')" "\<not> digit nl"
  "\<not> digit_or_dot backslash" "\<not> lower backslash" "\<not> digit backslash" "\<not> lower nl"
  by (simp_all add: digit_or_dot_def digit_def lower_def)

subsection \<open>The version validator\<close>

lemma match_prerelease_end_iff:
  "match_prerelease_end r \<longleftrightarrow> suffix_shape r \<or> (\<exists>r'. r = r' @ [nl] \<and> suffix_shape r')"
proof
  assume m: "match_prerelease_end r"
  show "suffix_shape r \<or> (\<exists>r'. r = r' @ [nl] \<and> suffix_shape r')"
  proof (cases "at_end r")
    case True
    then show ?thesis by (auto simp: at_end_def suffix_shape_def)
  next
    case False
    with m obtain r1 r2 where r: "r = CHR ''-'' # r1" and l: "takeWhile lower r1 \<noteq> []"
      and d1: "dropWhile lower r1 = CHR ''.'' # r2" and d: "takeWhile digit r2 \<noteq> []"
      and e: "at_end (dropWhile digit r2)"
      by (auto simp: match_prerelease_end_def split: list.splits)
    define l where "l = takeWhile lower r1"
    define d where "d = takeWhile digit r2"
    have r1: "r1 = l @ CHR ''.'' # r2"
      using d1 takeWhile_dropWhile_id [of lower r1] by (simp add: l_def)
    define t where "t = dropWhile digit r2"
    have r2: "r2 = d @ t"
      by (simp add: d_def t_def)
    have ll: "\<forall>c\<in>set l. lower c" and dd: "\<forall>c\<in>set d. digit c"
      by (auto simp: l_def d_def dest: set_takeWhileD)
    have ne: "l \<noteq> []" "d \<noteq> []" using l d by (simp_all add: l_def d_def)
    have shape: "suffix_shape (''-'' @ l @ ''.'' @ d)"
      using ll dd ne unfolding suffix_shape_def by blast
    from e consider "t = []" | "t = [nl]"
      by (auto simp: at_end_def t_def)
    then show ?thesis
    proof cases
      case 1
      then have "r = ''-'' @ l @ ''.'' @ d" by (simp add: r r1 r2)
      then show ?thesis using shape by simp
    next
      case 2
      then have "r = (''-'' @ l @ ''.'' @ d) @ [nl]" by (simp add: r r1 r2)
      then show ?thesis using shape by blast
    qed
  qed
next
  assume "suffix_shape r \<or> (\<exists>r'. r = r' @ [nl] \<and> suffix_shape r')"
  then obtain r' t where rt: "r = r' @ t" "t = [] \<or> t = [nl]" and s: "suffix_shape r'"
    by auto
  show "match_prerelease_end r"
  proof (cases "r' = []")
    case True
    then show ?thesis using rt by (auto simp: match_prerelease_end_def at_end_def)
  next
    case False
    with s obtain l d where l: "l \<noteq> []" "\<forall>c\<in>set l. lower c" and d: "d \<noteq> []" "\<forall>c\<in>set d. digit c"
      and r': "r' = ''-'' @ l @ ''.'' @ d"
      by (auto simp: suffix_shape_def)
    have r: "r = CHR ''-'' # (l @ CHR ''.'' # (d @ t))" using rt r' by simp
    have 1: "takeWhile lower (l @ CHR ''.'' # (d @ t)) = l"
      "dropWhile lower (l @ CHR ''.'' # (d @ t)) = CHR ''.'' # (d @ t)"
      using l by (simp_all add: takeWhile_run dropWhile_run)
    have 2: "takeWhile digit (d @ t) = d \<and> dropWhile digit (d @ t) = t"
    proof (cases "t = []")
      case True
      then show ?thesis using d by (simp add: dropWhile_all)
    next
      case False
      then have "t = [nl]" using rt(2) by simp
      then show ?thesis using d by (simp add: takeWhile_run dropWhile_run)
    qed
    show ?thesis
      unfolding r match_prerelease_end_def using 1 2 l d rt(2) by (auto simp: at_end_def)
  qed
qed

lemma match_VERSION_PATTERN_iff:
  "match_VERSION_PATTERN v \<longleftrightarrow>
     (\<exists>a b r. a \<noteq> [] \<and> (\<forall>c\<in>set a. digit_or_dot c) \<and> b \<noteq> [] \<and> (\<forall>c\<in>set b. digit_or_dot c) \<and>
        v = a @ ''-'' @ b @ r \<and> match_prerelease_end r)"
proof
  assume m: "match_VERSION_PATTERN v"
  then obtain r1 where a: "takeWhile digit_or_dot v \<noteq> []"
    and d1: "dropWhile digit_or_dot v = CHR ''-'' # r1"
    and b: "takeWhile digit_or_dot r1 \<noteq> []"
    and e: "match_prerelease_end (dropWhile digit_or_dot r1)"
    by (auto simp: match_VERSION_PATTERN_def split: list.splits)
  have "v = takeWhile digit_or_dot v @ ''-'' @ takeWhile digit_or_dot r1 @ dropWhile digit_or_dot r1"
    using d1 takeWhile_dropWhile_id [of digit_or_dot v] by simp
  moreover have "\<forall>c\<in>set (takeWhile digit_or_dot v). digit_or_dot c"
    "\<forall>c\<in>set (takeWhile digit_or_dot r1). digit_or_dot c"
    by (auto dest: set_takeWhileD)
  ultimately show "\<exists>a b r. a \<noteq> [] \<and> (\<forall>c\<in>set a. digit_or_dot c) \<and> b \<noteq> [] \<and> (\<forall>c\<in>set b. digit_or_dot c) \<and>
        v = a @ ''-'' @ b @ r \<and> match_prerelease_end r"
    using a b e by blast
next
  assume "\<exists>a b r. a \<noteq> [] \<and> (\<forall>c\<in>set a. digit_or_dot c) \<and> b \<noteq> [] \<and> (\<forall>c\<in>set b. digit_or_dot c) \<and>
        v = a @ ''-'' @ b @ r \<and> match_prerelease_end r"
  then obtain a b r where a: "a \<noteq> []" "\<forall>c\<in>set a. digit_or_dot c"
    and b: "b \<noteq> []" "\<forall>c\<in>set b. digit_or_dot c"
    and v: "v = a @ CHR ''-'' # (b @ r)" and m: "match_prerelease_end r"
    by auto
  have 1: "takeWhile digit_or_dot v = a" "dropWhile digit_or_dot v = CHR ''-'' # (b @ r)"
    unfolding v using a by (simp_all add: takeWhile_run dropWhile_run)
  have hd: "r = [] \<or> \<not> digit_or_dot (hd r)"
    using m by (auto simp: match_prerelease_end_def at_end_def split: list.splits)
  have 2: "takeWhile digit_or_dot (b @ r) = b \<and> dropWhile digit_or_dot (b @ r) = r"
  proof (cases r)
    case Nil
    then show ?thesis using b by (simp add: dropWhile_all)
  next
    case (Cons y ys)
    then show ?thesis using b hd by (simp add: takeWhile_run dropWhile_run)
  qed
  show "match_VERSION_PATTERN v"
    unfolding match_VERSION_PATTERN_def using 1 2 a b m by simp
qed

lemma version_shape_alt:
  "version_shape v \<longleftrightarrow>
     (\<exists>a b r. a \<noteq> [] \<and> (\<forall>c\<in>set a. digit_or_dot c) \<and> b \<noteq> [] \<and> (\<forall>c\<in>set b. digit_or_dot c) \<and>
        v = a @ ''-'' @ b @ r \<and> suffix_shape r)"
proof
  assume "version_shape v"
  then obtain a b where ab: "a \<noteq> []" "\<forall>c\<in>set a. digit_or_dot c" "b \<noteq> []" "\<forall>c\<in>set b. digit_or_dot c"
    and v: "v = a @ ''-'' @ b \<or>
         (\<exists>l d. l \<noteq> [] \<and> (\<forall>c\<in>set l. lower c) \<and> d \<noteq> [] \<and> (\<forall>c\<in>set d. digit c) \<and>
            v = a @ ''-'' @ b @ ''-'' @ l @ ''.'' @ d)"
    unfolding version_shape_def by blast
  from v have "\<exists>r. v = a @ ''-'' @ b @ r \<and> suffix_shape r"
  proof
    assume "v = a @ ''-'' @ b"
    then have "v = a @ ''-'' @ b @ [] \<and> suffix_shape []" by (simp add: suffix_shape_def)
    then show ?thesis by (rule exI)
  next
    assume "\<exists>l d. l \<noteq> [] \<and> (\<forall>c\<in>set l. lower c) \<and> d \<noteq> [] \<and> (\<forall>c\<in>set d. digit c) \<and>
            v = a @ ''-'' @ b @ ''-'' @ l @ ''.'' @ d"
    then obtain l d where ld: "l \<noteq> []" "\<forall>c\<in>set l. lower c" "d \<noteq> []" "\<forall>c\<in>set d. digit c"
      and v': "v = a @ ''-'' @ b @ (''-'' @ l @ ''.'' @ d)" by auto
    have "suffix_shape (''-'' @ l @ ''.'' @ d)" unfolding suffix_shape_def using ld by blast
    with v' show ?thesis by blast
  qed
  with ab show "\<exists>a b r. a \<noteq> [] \<and> (\<forall>c\<in>set a. digit_or_dot c) \<and> b \<noteq> [] \<and> (\<forall>c\<in>set b. digit_or_dot c) \<and>
        v = a @ ''-'' @ b @ r \<and> suffix_shape r" by blast
next
  assume "\<exists>a b r. a \<noteq> [] \<and> (\<forall>c\<in>set a. digit_or_dot c) \<and> b \<noteq> [] \<and> (\<forall>c\<in>set b. digit_or_dot c) \<and>
        v = a @ ''-'' @ b @ r \<and> suffix_shape r"
  then obtain a b r where ab: "a \<noteq> []" "\<forall>c\<in>set a. digit_or_dot c" "b \<noteq> []" "\<forall>c\<in>set b. digit_or_dot c"
    and v: "v = a @ ''-'' @ b @ r" and r: "suffix_shape r" by blast
  from r have "v = a @ ''-'' @ b \<or>
         (\<exists>l d. l \<noteq> [] \<and> (\<forall>c\<in>set l. lower c) \<and> d \<noteq> [] \<and> (\<forall>c\<in>set d. digit c) \<and>
            v = a @ ''-'' @ b @ ''-'' @ l @ ''.'' @ d)"
    unfolding suffix_shape_def v by auto
  with ab show "version_shape v" unfolding version_shape_def by blast
qed

lemma validate_version_iff:
  "validate_version (Some v) \<longleftrightarrow> version_shape v \<or> (\<exists>w. v = w @ [nl] \<and> version_shape w)"
proof
  assume "validate_version (Some v)"
  then have "match_VERSION_PATTERN v"
    by (simp add: validate_version_def split: if_splits)
  then obtain a b r where ab: "a \<noteq> []" "\<forall>c\<in>set a. digit_or_dot c" "b \<noteq> []" "\<forall>c\<in>set b. digit_or_dot c"
    and v: "v = a @ ''-'' @ b @ r" and m: "match_prerelease_end r"
    unfolding match_VERSION_PATTERN_iff by blast
  from m consider "suffix_shape r" | r' where "r = r' @ [nl]" "suffix_shape r'"
    unfolding match_prerelease_end_iff by blast
  then show "version_shape v \<or> (\<exists>w. v = w @ [nl] \<and> version_shape w)"
  proof cases
    case 1
    then have "version_shape v" unfolding version_shape_alt using ab v by blast
    then show ?thesis ..
  next
    case 2
    then have "version_shape (a @ ''-'' @ b @ r')"
      unfolding version_shape_alt using ab by blast
    moreover have "v = (a @ ''-'' @ b @ r') @ [nl]" using v 2 by simp
    ultimately show ?thesis by blast
  qed
next
  assume "version_shape v \<or> (\<exists>w. v = w @ [nl] \<and> version_shape w)"
  then obtain w t where vt: "v = w @ t" "t = [] \<or> t = [nl]" and w: "version_shape w"
    by auto
  from w obtain a b r where ab: "a \<noteq> []" "\<forall>c\<in>set a. digit_or_dot c" "b \<noteq> []" "\<forall>c\<in>set b. digit_or_dot c"
    and w': "w = a @ ''-'' @ b @ r" and r: "suffix_shape r"
    unfolding version_shape_alt by blast
  have "match_prerelease_end (r @ t)"
    unfolding match_prerelease_end_iff using r vt(2) by auto
  moreover have "v = a @ ''-'' @ b @ (r @ t)" using vt w' by simp
  ultimately have "match_VERSION_PATTERN v"
    unfolding match_VERSION_PATTERN_iff using ab by blast
  moreover have "v \<noteq> []" using vt w' by simp
  ultimately show "validate_version (Some v)"
    by (simp add: validate_version_def)
qed

lemma class_not_newline:
  "digit_or_dot c \<Longrightarrow> c \<noteq> nl" "lower c \<Longrightarrow> c \<noteq> nl" "digit c \<Longrightarrow> c \<noteq> nl"
  by auto

lemma version_shape_no_newline:
  assumes "version_shape v"
  shows "nl \<notin> set v"
proof -
  from assms obtain a b r where ab: "\<forall>c\<in>set a. digit_or_dot c" "\<forall>c\<in>set b. digit_or_dot c"
    and v: "v = a @ ''-'' @ b @ r" and r: "suffix_shape r"
    unfolding version_shape_alt by blast
  have "nl \<notin> set a" "nl \<notin> set b" using ab class_not_newline(1) by blast+
  moreover have "nl \<notin> set r"
  proof (cases "r = []")
    case True
    then show ?thesis by simp
  next
    case False
    with r obtain l d where ld: "\<forall>c\<in>set l. lower c" "\<forall>c\<in>set d. digit c"
      and r': "r = ''-'' @ l @ ''.'' @ d"
      unfolding suffix_shape_def by blast
    have "nl \<notin> set l" "nl \<notin> set d" using ld class_not_newline(2,3) by blast+
    then show ?thesis unfolding r' by simp
  qed
  ultimately show ?thesis unfolding v by simp
qed

text \<open>
  Claim C7. \<^verbatim>\<open>validate_version\<close> is to accept exactly the strings of the shape above. It
  rejects the absent and the empty string and accepts every string of the shape
  (\<open>validate_version_iff\<close>), but \<^verbatim>\<open>$\<close> also holds before a line feed that ends the string, so
  an identifier of the shape followed by a line feed is accepted as well.
\<close>

theorem validate_version_accepts_trailing_newline:
  "validate_version (Some (''1.2.3-4.5.6'' @ [nl])) = True"
  by (simp add: validate_version_def match_VERSION_PATTERN_def match_prerelease_end_def
      digit_or_dot_def digit_def at_end_def)

lemma trailing_newline_not_version_shape: "\<not> version_shape (''1.2.3-4.5.6'' @ [nl])"
  using version_shape_no_newline [of "''1.2.3-4.5.6'' @ [nl]"] by auto

lemma validate_version_rejects_absent_and_empty:
  "\<not> validate_version None" "\<not> validate_version (Some [])"
  by (simp_all add: validate_version_def)

subsection \<open>The content merger\<close>

lemma space_simps [simp]: "\<not> space (CHR ''#'')" "\<not> space (CHR ''C'')" "space nl" "space (CHR '' '')"
  by (simp_all add: space_def)

lemma changes_at_heading:
  assumes h: "hashes \<noteq> []" "\<forall>c\<in>set hashes. c = CHR ''#''"
    and b: "blanks \<noteq> []" "\<forall>c\<in>set blanks. space c"
  shows "changes_at (pre @ hashes @ blanks @ ''Changes'' @ post) (length pre) =
           Some (length pre + length hashes + length blanks + 7)"
proof -
  obtain y ys where blanks: "blanks = y # ys" using b(1) by (cases blanks) auto
  then have y: "y \<noteq> CHR ''#''" using b(2) by auto
  have 1: "takeWhile (\<lambda>c. c = CHR ''#'') (hashes @ blanks @ ''Changes'' @ post) = hashes"
    using takeWhile_run [of hashes "\<lambda>c. c = CHR ''#''" y "ys @ ''Changes'' @ post"] h(2) y
    by (simp add: blanks)
  have 2: "takeWhile space (blanks @ ''Changes'' @ post) = blanks"
    using takeWhile_run [of blanks space "CHR ''C''" "''hanges'' @ post"] b(2) by simp
  show ?thesis
    unfolding changes_at_def using 1 2 h(1) b(1) by (simp add: Let_def)
qed

lemma create_new_entry_after_first_heading:
  assumes h: "hashes \<noteq> []" "\<forall>c\<in>set hashes. c = CHR ''#''"
    and b: "blanks \<noteq> []" "\<forall>c\<in>set blanks. space c"
    and first: "\<forall>j<length pre. changes_at (pre @ hashes @ blanks @ ''Changes'' @ post) j = None"
  shows "create_new_entry (pre @ hashes @ blanks @ ''Changes'' @ post) new_entry =
           pre @ hashes @ blanks @ ''Changes'' @ [nl, nl] @ new_entry @ [nl] @ lstrip post"
proof -
  let ?body = "pre @ hashes @ blanks @ ''Changes'' @ post"
  let ?e = "length pre + length hashes + length blanks + 7"
  have "search (changes_at ?body) ?body 0 = Some (length pre, ?e)"
    unfolding search_Some_iff using changes_at_heading [OF h b, of pre post] first by simp
  moreover have "?body \<noteq> []" using h(1) by simp
  moreover have "take ?e ?body = pre @ hashes @ blanks @ ''Changes''" by simp
  moreover have "drop ?e ?body = post" by simp
  ultimately show ?thesis
    unfolding create_new_entry_def by (simp add: Let_def)
qed

lemma create_new_entry_no_match:
  assumes "unreleased_content \<noteq> []"
    and "\<forall>j\<le>length unreleased_content. changes_at unreleased_content j = None"
  shows "create_new_entry unreleased_content new_entry =
           ''### Changes'' @ [nl, nl] @ new_entry @ [nl, nl] @ unreleased_content"
proof -
  have "search (changes_at unreleased_content) unreleased_content 0 = None"
    unfolding search_None_iff using assms(2) by simp
  then show ?thesis using assms(1) by (simp add: create_new_entry_def)
qed

text \<open>
  Claim C4. For a non-empty unreleased body that holds a heading whose text is \<^verbatim>\<open>Changes\<close>,
  the new bullet is to come right after that heading, one blank line between them, with the
  rest of the body kept as it was. The pattern of the script is neither tied to the start of
  a line nor to the end of the heading: a heading whose text only begins with that word is
  taken for the heading, and the bullet is put in the middle of its line. The body below holds
  the heading \<^verbatim>\<open>### Changes\<close>, and the bullet does not follow it; the last equation is the
  body of the claim with the one bullet \<^verbatim>\<open>* foo\<close>, where the script does what is asked.
\<close>

theorem create_new_entry_splits_longer_heading:
  "has_changes_heading
     (''### Changes to API'' @ [nl, nl] @ ''* x'' @ [nl, nl] @ ''### Changes'' @ [nl, nl] @ ''* foo'') \<and>
   create_new_entry
     (''### Changes to API'' @ [nl, nl] @ ''* x'' @ [nl, nl] @ ''### Changes'' @ [nl, nl] @ ''* foo'')
     ''* new'' =
   ''### Changes'' @ [nl, nl] @ ''* new'' @ [nl] @ ''to API'' @ [nl, nl] @ ''* x'' @ [nl, nl] @
   ''### Changes'' @ [nl, nl] @ ''* foo'' \<and>
   create_new_entry (''### Changes'' @ [nl, nl] @ ''* foo'') ''* new'' =
   ''### Changes'' @ [nl, nl] @ ''* new'' @ [nl] @ ''* foo''"
  by code_simp

text \<open>
  Claim C5. An empty unreleased body gives a fresh \<^verbatim>\<open>### Changes\<close> heading and the bullet; with
  \<^verbatim>\<open>NEW_VERSION=1.2.3-4.5.6\<close> and \<^verbatim>\<open>PR_NUMBER=42\<close> the body of the new section, link reference
  appended, is the text of the second equation. A non-empty body without a \<^verbatim>\<open>Changes\<close>
  heading is to be put under a new heading that holds only the new bullet: the body of the
  last equation has no such heading, and yet the script cuts the heading it has in two.
\<close>

theorem create_new_entry_fresh_heading:
  "create_new_entry [] new_entry = ''### Changes'' @ [nl, nl] @ new_entry \<and>
   add_pr_link
     (create_new_entry [] (new_entry_line (extract_nearcore_version ''1.2.3-4.5.6'') ''42''))
     (pr_link_line ''42'') =
   ''### Changes'' @ [nl, nl] @ ''* chore: bump nearcore to 4.5.6 in [#42]'' @ [nl, nl] @
   ''[#42]: '' @ REPO_URL @ ''/pull/42'' \<and>
   \<not> has_changes_heading (''### Changes to API'' @ [nl, nl] @ ''* x'') \<and>
   create_new_entry (''### Changes to API'' @ [nl, nl] @ ''* x'') ''* new'' =
   ''### Changes'' @ [nl, nl] @ ''* new'' @ [nl] @ ''to API'' @ [nl, nl] @ ''* x''"
proof -
  have "create_new_entry [] new_entry = ''### Changes'' @ [nl, nl] @ new_entry"
    by (simp add: create_new_entry_def)
  moreover have "add_pr_link
     (create_new_entry [] (new_entry_line (extract_nearcore_version ''1.2.3-4.5.6'') ''42''))
     (pr_link_line ''42'') =
   ''### Changes'' @ [nl, nl] @ ''* chore: bump nearcore to 4.5.6 in [#42]'' @ [nl, nl] @
   ''[#42]: '' @ REPO_URL @ ''/pull/42''"
    by code_simp
  moreover have "\<not> has_changes_heading (''### Changes to API'' @ [nl, nl] @ ''* x'')"
    by code_simp
  moreover have "create_new_entry (''### Changes to API'' @ [nl, nl] @ ''* x'') ''* new'' =
   ''### Changes'' @ [nl, nl] @ ''* new'' @ [nl] @ ''to API'' @ [nl, nl] @ ''* x''"
    by code_simp
  ultimately show ?thesis by blast
qed

subsection \<open>The link reference of the pull request\<close>

lemma takeWhile_not_Nil_iff: "takeWhile P xs \<noteq> [] \<longleftrightarrow> (\<exists>y ys. xs = y # ys \<and> P y)"
  by (cases xs) auto

lemma not_digit_bracket [simp]: "\<not> digit (CHR '']'')"
  by (simp add: digit_def)

lemma pr_link_at_iff:
  assumes "i \<le> length s"
  shows "pr_link_at s i \<noteq> None \<longleftrightarrow>
     (\<exists>n d rest. n \<noteq> [] \<and> (\<forall>c\<in>set n. digit c) \<and> digit d \<and> drop i s = pr_link_text n d @ rest)"
proof
  assume m: "pr_link_at s i \<noteq> None"
  define n where "n = takeWhile digit (drop (i + 2) s)"
  define mid where "mid = '']: '' @ REPO_URL @ ''/pull/''"
  define pull where "pull = takeWhile digit (drop (i + 2 + length n + length mid) s)"
  from m have p1: "prefix ''[#'' (drop i s)" and n: "n \<noteq> []"
    and p2: "prefix mid (drop (i + 2 + length n) s)" and pull: "pull \<noteq> []"
    unfolding pr_link_at_def n_def mid_def pull_def
    by (auto simp: Let_def split: if_splits)
  from p1 obtain r1 where r1: "drop i s = ''[#'' @ r1" by (auto simp: prefix_def)
  then have d2: "drop (i + 2) s = r1"
    by (metis add.commute append_eq_conv_conj drop_drop length_Cons list.size(3) numeral_2_eq_2)
  have r1n: "r1 = n @ dropWhile digit r1" using d2 by (simp add: n_def)
  have "drop (i + 2 + length n) s = drop (length n) r1"
    using d2 by (metis add.commute drop_drop)
  also have "\<dots> = dropWhile digit r1" using r1n by (metis append_eq_conv_conj)
  finally have d3: "drop (i + 2 + length n) s = dropWhile digit r1" .
  with p2 obtain r2 where r2: "dropWhile digit r1 = mid @ r2" by (auto simp: prefix_def)
  have "drop (i + 2 + length n + length mid) s = drop (length mid) (dropWhile digit r1)"
    using d3 by (metis add.commute drop_drop)
  then have d4: "drop (i + 2 + length n + length mid) s = r2" using r2 by simp
  from pull obtain d ds where r2d: "r2 = d # ds" and d: "digit d"
    unfolding pull_def d4 takeWhile_not_Nil_iff by blast
  have "drop i s = pr_link_text n d @ ds"
    using r1 r1n r2 r2d unfolding pr_link_text_def mid_def by (metis append.assoc append_Cons append_Nil)
  moreover have "\<forall>c\<in>set n. digit c" by (auto simp: n_def dest: set_takeWhileD)
  ultimately show "\<exists>n d rest. n \<noteq> [] \<and> (\<forall>c\<in>set n. digit c) \<and> digit d \<and> drop i s = pr_link_text n d @ rest"
    using n d by blast
next
  assume "\<exists>n d rest. n \<noteq> [] \<and> (\<forall>c\<in>set n. digit c) \<and> digit d \<and> drop i s = pr_link_text n d @ rest"
  then obtain n d rest where n: "n \<noteq> []" "\<forall>c\<in>set n. digit c" and d: "digit d"
    and s: "drop i s = pr_link_text n d @ rest" by blast
  define mid where "mid = '']: '' @ REPO_URL @ ''/pull/''"
  have mid: "mid = CHR '']'' # tl mid" by (simp add: mid_def)
  have dk: "drop (i + k) s = drop k (pr_link_text n d @ rest)" for k
    using s by (metis add.commute drop_drop)
  have 1: "prefix ''[#'' (drop i s)" by (simp add: s pr_link_text_def)
  have tx: "pr_link_text n d @ rest = ''[#'' @ (n @ (mid @ d # rest))"
    by (simp add: pr_link_text_def mid_def)
  have "drop (i + 2) s = n @ mid @ d # rest"
    unfolding dk tx by simp
  then have d2: "drop (i + 2) s = n @ CHR '']'' # (tl mid @ d # rest)"
    using mid by (metis append_Cons)
  have 2: "takeWhile digit (drop (i + 2) s) = n"
    unfolding d2 using n(2) by (simp add: takeWhile_tail)
  have "drop (i + 2 + length n) s = drop (2 + length n) (pr_link_text n d @ rest)"
    using dk [of "2 + length n"] by (simp add: add.assoc)
  then have d3: "drop (i + 2 + length n) s = mid @ d # rest"
    unfolding tx by simp
  have "drop (i + 2 + length n + length mid) s = drop (2 + length n + length mid) (pr_link_text n d @ rest)"
    using dk [of "2 + length n + length mid"] by (simp add: add.assoc)
  then have d4: "drop (i + 2 + length n + length mid) s = d # rest"
    unfolding tx by simp
  show "pr_link_at s i \<noteq> None"
    unfolding pr_link_at_def Let_def 2 mid_def [symmetric] d3 d4 using 1 n(1) d by simp
qed


lemma search_not_None_iff:
  "search m s 0 \<noteq> None \<longleftrightarrow> (\<exists>i\<le>length s. m i \<noteq> None)"
  by (auto simp: search_None_iff)

lemma link_pattern_occurs_iff:
  "search (pr_link_at s) s 0 \<noteq> None \<longleftrightarrow>
     (\<exists>n d. n \<noteq> [] \<and> (\<forall>c\<in>set n. digit c) \<and> digit d \<and> sublist (pr_link_text n d) s)"
proof
  assume "search (pr_link_at s) s 0 \<noteq> None"
  then obtain i where i: "i \<le> length s" "pr_link_at s i \<noteq> None"
    unfolding search_not_None_iff by blast
  then obtain n d rest where nd: "n \<noteq> []" "\<forall>c\<in>set n. digit c" "digit d"
    and dr: "drop i s = pr_link_text n d @ rest"
    unfolding pr_link_at_iff [OF i(1)] by blast
  have "s = take i s @ pr_link_text n d @ rest"
    using dr by (metis append_take_drop_id)
  then have "sublist (pr_link_text n d) s" unfolding sublist_def by blast
  with nd show "\<exists>n d. n \<noteq> [] \<and> (\<forall>c\<in>set n. digit c) \<and> digit d \<and> sublist (pr_link_text n d) s"
    by blast
next
  assume "\<exists>n d. n \<noteq> [] \<and> (\<forall>c\<in>set n. digit c) \<and> digit d \<and> sublist (pr_link_text n d) s"
  then obtain n d ps ss where nd: "n \<noteq> []" "\<forall>c\<in>set n. digit c" "digit d"
    and s: "s = ps @ pr_link_text n d @ ss"
    unfolding sublist_def by blast
  have i: "length ps \<le> length s" by (subst s) simp
  have "drop (length ps) s = pr_link_text n d @ ss" by (subst s) simp
  then have "pr_link_at s (length ps) \<noteq> None"
    unfolding pr_link_at_iff [OF i] using nd by blast
  then show "search (pr_link_at s) s 0 \<noteq> None"
    unfolding search_not_None_iff using i by blast
qed

lemma hd_split: "hd (split sep s) = takeWhile (\<lambda>c. c \<noteq> sep) s"
proof (induction s)
  case Nil
  then show ?case by simp
next
  case (Cons c cs)
  obtain p ps where sp: "split sep cs = p # ps"
    using split_not_Nil [of sep cs] by (cases "split sep cs") auto
  then show ?case using Cons by simp
qed

lemma line_sublist: "l \<in> set (split sep s) \<Longrightarrow> sublist l s"
proof (induction s arbitrary: l)
  case Nil
  then show ?case by simp
next
  case (Cons c cs)
  show ?case
  proof (cases "c = sep")
    case True
    then have "l = [] \<or> l \<in> set (split sep cs)" using Cons.prems by simp
    then show ?thesis
    proof
      assume "l = []"
      then show ?thesis by simp
    next
      assume "l \<in> set (split sep cs)"
      then have "sublist l cs" by (rule Cons.IH)
      then show ?thesis by (simp add: sublist_Cons_right)
    qed
  next
    case False
    obtain p ps where sp: "split sep cs = p # ps"
      using split_not_Nil [of sep cs] by (cases "split sep cs") auto
    then have "l = c # p \<or> l \<in> set ps" using Cons.prems False by simp
    then show ?thesis
    proof
      assume l: "l = c # p"
      have "p = takeWhile (\<lambda>c. c \<noteq> sep) cs" using hd_split [of sep cs] sp by simp
      then have "prefix p cs" by (metis prefixI takeWhile_dropWhile_id)
      then have "prefix l (c # cs)" using l by simp
      then show ?thesis by (rule prefix_imp_sublist)
    next
      assume "l \<in> set ps"
      then have "sublist l cs" using Cons.IH sp by simp
      then show ?thesis by (simp add: sublist_Cons_right)
    qed
  qed
qed

lemma prefix_takeWhile:
  "prefix k s \<Longrightarrow> \<forall>c\<in>set k. P c \<Longrightarrow> prefix k (takeWhile P s)"
  by (auto simp: prefix_def)

lemma sublist_some_line:
  assumes "sep \<notin> set k" and "sublist k s"
  shows "\<exists>l\<in>set (split sep s). sublist k l"
  using assms(2)
proof (induction s)
  case Nil
  then show ?case by simp
next
  case (Cons c cs)
  obtain p ps where sp: "split sep cs = p # ps"
    using split_not_Nil [of sep cs] by (cases "split sep cs") auto
  from Cons.prems have "prefix k (c # cs) \<or> sublist k cs"
    by (simp add: sublist_Cons_right)
  then show ?case
  proof
    assume pk: "prefix k (c # cs)"
    have "prefix k (takeWhile (\<lambda>c. c \<noteq> sep) (c # cs))"
      using prefix_takeWhile [OF pk, of "\<lambda>c. c \<noteq> sep"] assms(1) by blast
    then have "sublist k (hd (split sep (c # cs)))"
      unfolding hd_split by (rule prefix_imp_sublist)
    moreover have "hd (split sep (c # cs)) \<in> set (split sep (c # cs))"
      using split_not_Nil [of sep "c # cs"] by (rule hd_in_set)
    ultimately show ?thesis by blast
  next
    assume "sublist k cs"
    then obtain l where l: "l \<in> set (split sep cs)" "sublist k l" using Cons.IH by blast
    show ?thesis
    proof (cases "c = sep")
      case True
      then show ?thesis using l by auto
    next
      case False
      from l(1) sp have "l = p \<or> l \<in> set ps" by simp
      then show ?thesis
      proof
        assume "l = p"
        then have "sublist k (c # p)" using l(2) by (simp add: sublist_Cons_right)
        then show ?thesis using False sp by auto
      next
        assume "l \<in> set ps"
        then show ?thesis using False sp l(2) by auto
      qed
    qed
  qed
qed

lemma pr_link_text_no_newline:
  "\<forall>c\<in>set n. digit c \<Longrightarrow> digit d \<Longrightarrow> nl \<notin> set (pr_link_text n d)"
proof -
  assume n: "\<forall>c\<in>set n. digit c" and d: "digit d"
  have "nl \<notin> set n" using n by (metis not_class(4))
  moreover have "d \<noteq> nl" using d by (metis not_class(4))
  moreover have "nl \<notin> set REPO_URL" by (simp add: REPO_URL_def)
  ultimately show ?thesis by (simp add: pr_link_text_def)
qed

lemma some_line_matches_iff:
  "some_line_matches content \<longleftrightarrow> search (pr_link_at content) content 0 \<noteq> None"
proof
  assume "some_line_matches content"
  then obtain l where l: "l \<in> set (split nl content)" "link_reference_line l"
    unfolding some_line_matches_def list_ex_iff by blast
  then obtain n d where nd: "n \<noteq> []" "\<forall>c\<in>set n. digit c" "digit d" "sublist (pr_link_text n d) l"
    unfolding link_reference_line_def link_pattern_occurs_iff by blast
  have "sublist (pr_link_text n d) content"
    using nd(4) line_sublist [OF l(1)] by (rule sublist_order.order_trans)
  then show "search (pr_link_at content) content 0 \<noteq> None"
    unfolding link_pattern_occurs_iff using nd by blast
next
  assume "search (pr_link_at content) content 0 \<noteq> None"
  then obtain n d where nd: "n \<noteq> []" "\<forall>c\<in>set n. digit c" "digit d"
    and sub: "sublist (pr_link_text n d) content"
    unfolding link_pattern_occurs_iff by blast
  obtain l where "l \<in> set (split nl content)" "sublist (pr_link_text n d) l"
    using sublist_some_line [OF pr_link_text_no_newline [OF nd(2,3)] sub] by blast
  then show "some_line_matches content"
    unfolding some_line_matches_def list_ex_iff link_reference_line_def link_pattern_occurs_iff
    using nd by blast
qed


text \<open>
  Claim C6, as amended. \<^verbatim>\<open>add_pr_link\<close> appends the link-reference line at the end of the
  body: after a single line feed when some line of the body matches the link-reference
  pattern, after a blank line otherwise. The new line is directly below a reference link
  when the last line of the body is one.
\<close>

theorem add_pr_link_appends:
  "(some_line_matches content \<longrightarrow> add_pr_link content pr_link = content @ [nl] @ pr_link) \<and>
   (\<not> some_line_matches content \<longrightarrow> add_pr_link content pr_link = content @ [nl, nl] @ pr_link) \<and>
   (link_reference_line (last (split nl content)) \<longrightarrow>
      appended_below_link_block content pr_link (add_pr_link content pr_link))"
proof (intro conjI impI)
  assume "some_line_matches content"
  then show "add_pr_link content pr_link = content @ [nl] @ pr_link"
    unfolding some_line_matches_iff add_pr_link_def by auto
next
  assume "\<not> some_line_matches content"
  then have "search (pr_link_at content) content 0 = None"
    unfolding some_line_matches_iff by blast
  then show "add_pr_link content pr_link = content @ [nl, nl] @ pr_link"
    unfolding add_pr_link_def by simp
next
  assume l: "link_reference_line (last (split nl content))"
  have "last (split nl content) \<in> set (split nl content)"
    using split_not_Nil by (rule last_in_set)
  then have "some_line_matches content"
    unfolding some_line_matches_def list_ex_iff using l by blast
  then have "add_pr_link content pr_link = content @ [nl] @ pr_link"
    unfolding some_line_matches_iff add_pr_link_def by auto
  then show "appended_below_link_block content pr_link (add_pr_link content pr_link)"
    unfolding appended_below_link_block_def using l by simp
qed

theorem add_pr_link_witness:
  "some_line_matches (''* a'' @ [nl, nl] @ ''[#1]: '' @ REPO_URL @ ''/pull/1'') \<and>
   link_reference_line (last (split nl (''* a'' @ [nl, nl] @ ''[#1]: '' @ REPO_URL @ ''/pull/1''))) \<and>
   appended_below_link_block (''* a'' @ [nl, nl] @ ''[#1]: '' @ REPO_URL @ ''/pull/1'')
     (pr_link_line ''2'')
     (add_pr_link (''* a'' @ [nl, nl] @ ''[#1]: '' @ REPO_URL @ ''/pull/1'') (pr_link_line ''2'')) \<and>
   \<not> some_line_matches ''* a'' \<and>
   add_pr_link ''* a'' (pr_link_line ''2'') = ''* a'' @ [nl, nl] @ pr_link_line ''2''"
proof -
  have 1: "link_reference_line (last (split nl (''* a'' @ [nl, nl] @ ''[#1]: '' @ REPO_URL @ ''/pull/1'')))"
    by code_simp
  have 2: "some_line_matches (''* a'' @ [nl, nl] @ ''[#1]: '' @ REPO_URL @ ''/pull/1'')"
    by code_simp
  have 3: "\<not> some_line_matches ''* a''"
    by code_simp
  show ?thesis
    using 1 2 3
      add_pr_link_appends [of "''* a'' @ [nl, nl] @ ''[#1]: '' @ REPO_URL @ ''/pull/1''" "pr_link_line ''2''"]
      add_pr_link_appends [of "''* a''" "pr_link_line ''2''"]
    by blast
qed

text \<open>
  Stated for every body with a matching line, the property fails: where the reference link
  of the body is followed by other text, the new line is appended after that text and the
  block of reference links is not contiguous.
\<close>

theorem add_pr_link_not_below_link_block:
  "some_line_matches (''[#1]: '' @ REPO_URL @ ''/pull/1'' @ [nl, nl] @ ''### Fixed'' @ [nl, nl] @ ''* b'') \<and>
   add_pr_link (''[#1]: '' @ REPO_URL @ ''/pull/1'' @ [nl, nl] @ ''### Fixed'' @ [nl, nl] @ ''* b'')
     (pr_link_line ''2'') =
   ''[#1]: '' @ REPO_URL @ ''/pull/1'' @ [nl, nl] @ ''### Fixed'' @ [nl, nl] @ ''* b'' @ [nl] @
   ''[#2]: '' @ REPO_URL @ ''/pull/2'' \<and>
   \<not> appended_below_link_block
     (''[#1]: '' @ REPO_URL @ ''/pull/1'' @ [nl, nl] @ ''### Fixed'' @ [nl, nl] @ ''* b'')
     (pr_link_line ''2'')
     (add_pr_link (''[#1]: '' @ REPO_URL @ ''/pull/1'' @ [nl, nl] @ ''### Fixed'' @ [nl, nl] @ ''* b'')
        (pr_link_line ''2''))"
  by code_simp

subsection \<open>The link region\<close>

lemma prefix_append_long:
  "length m \<le> length xs \<Longrightarrow> prefix m (xs @ t) \<longleftrightarrow> prefix m xs"
  by (auto simp: prefix_append)

















subsection \<open>The stages of \<^verbatim>\<open>update_changelog\<close>\<close>

lemma search_at_most:
  assumes "pos \<le> j" "j \<le> length s" "m j = Some e'"
  shows "\<exists>i e. search m s pos = Some (i, e) \<and> pos \<le> i \<and> i \<le> j \<and> m i = Some e"
proof -
  have "search m s pos \<noteq> None"
    using assms by (auto simp: search_None_iff)
  then obtain i e where ie: "search m s pos = Some (i, e)" by auto
  then have 1: "pos \<le> i" "m i = Some e" and first: "\<forall>k. pos \<le> k \<and> k < i \<longrightarrow> m k = None"
    by (auto simp: search_Some_iff)
  have "i \<le> j"
  proof (rule ccontr)
    assume "\<not> i \<le> j"
    then have "pos \<le> j \<and> j < i" using assms(1) by simp
    then have "m j = None" using first by blast
    then show False using assms(3) by simp
  qed
  then show ?thesis using ie 1 by blast
qed

lemma label_char_simps [simp]: "\<not> label_char backslash" "\<not> label_char nl"
  by (simp_all add: label_char_def digit_def lower_def)

lemma label_char_classes:
  "digit_or_dot c \<Longrightarrow> label_char c" "lower c \<Longrightarrow> label_char c" "digit c \<Longrightarrow> label_char c"
  "label_char (CHR ''-'')" "label_char (CHR ''.'')"
  by (auto simp: label_char_def digit_or_dot_def)

lemma version_shape_label_chars:
  assumes "version_shape v"
  shows "\<forall>c\<in>set v. label_char c"
proof -
  from assms obtain a b r where ab: "\<forall>c\<in>set a. digit_or_dot c" "\<forall>c\<in>set b. digit_or_dot c"
    and v: "v = a @ ''-'' @ b @ r" and r: "suffix_shape r"
    unfolding version_shape_alt by blast
  have "\<forall>c\<in>set a. label_char c" "\<forall>c\<in>set b. label_char c"
    using ab label_char_classes(1) by blast+
  moreover have "\<forall>c\<in>set r. label_char c"
  proof (cases "r = []")
    case True
    then show ?thesis by simp
  next
    case False
    with r obtain l d where ld: "\<forall>c\<in>set l. lower c" "\<forall>c\<in>set d. digit c"
      and r': "r = ''-'' @ l @ ''.'' @ d"
      unfolding suffix_shape_def by blast
    have "\<forall>c\<in>set l. label_char c" "\<forall>c\<in>set d. label_char c"
      using ld label_char_classes(2,3) by blast+
    then show ?thesis unfolding r' using label_char_classes(4,5) by auto
  qed
  ultimately show ?thesis unfolding v using label_char_classes(4) by auto
qed

lemma validate_version_no_backslash:
  assumes "validate_version (Some v)"
  shows "backslash \<notin> set v"
proof -
  from assms consider "version_shape v" | w where "v = w @ [nl]" "version_shape w"
    unfolding validate_version_iff by blast
  then show ?thesis
  proof cases
    case 1
    then show ?thesis using version_shape_label_chars label_char_simps(1) by blast
  next
    case 2
    then have "backslash \<notin> set w" using version_shape_label_chars label_char_simps(1) by blast
    then show ?thesis using 2(1) by simp
  qed
qed

lemma find_unreleased_section_Inr:
  assumes "find_unreleased_section upper = Inr (us, ue)"
  shows "us \<le> length upper" "ue = us + 15" "bol upper us"
    "take ue upper = take us upper @ ''## [Unreleased]''"
    "\<forall>j<us. \<not> (bol upper j \<and> prefix ''## [Unreleased]'' (drop j upper))"
proof -
  from assms have s: "search (unreleased_at upper) upper 0 = Some (us, ue)"
    by (simp add: find_unreleased_section_def split: option.splits)
  then have 1: "us \<le> length upper" "unreleased_at upper us = Some ue"
    and first: "\<forall>j. j < us \<longrightarrow> unreleased_at upper j = None"
    by (auto simp: search_Some_iff)
  from 1(2) have b: "bol upper us" and p: "prefix ''## [Unreleased]'' (drop us upper)"
    and e: "ue = us + 15"
    by (auto simp: unreleased_at_def lit_def split: if_splits)
  show "us \<le> length upper" "ue = us + 15" "bol upper us" by fact+
  from p obtain r where r: "drop us upper = ''## [Unreleased]'' @ r" by (auto simp: prefix_def)
  have "take ue upper = take us upper @ take 15 (drop us upper)"
    unfolding e by (simp add: take_add)
  then show "take ue upper = take us upper @ ''## [Unreleased]''"
    unfolding r by simp
  show "\<forall>j<us. \<not> (bol upper j \<and> prefix ''## [Unreleased]'' (drop j upper))"
    using first by (auto simp: unreleased_at_def lit_def split: if_splits)
qed

lemma release_at_Some:
  assumes "release_at s i = Some e"
  shows "bol s i" "prefix ''## ['' (drop i s)" "i + 6 \<le> e"
    "\<forall>c\<in>set (group1 s (i, e)). label_char c" "group1 s (i, e) \<noteq> []"
    "prefix (''## ['' @ group1 s (i, e) @ '']'') (drop i s)"
proof -
  define label where "label = takeWhile label_char (drop (i + 4) s)"
  from assms have b: "bol s i" and p: "prefix ''## ['' (drop i s)" and l: "label \<noteq> []"
    and c: "prefix '']'' (drop (i + 4 + length label) s)" and e: "e = i + 4 + length label + 1"
    unfolding release_at_def label_def by (auto simp: Let_def split: if_splits)
  show "bol s i" "prefix ''## ['' (drop i s)" by fact+
  have "length label \<ge> 1" using l by (cases label) auto
  then show "i + 6 \<le> e" using e by simp
  have "label = take (length label) (drop (i + 4) s)"
    unfolding label_def by (rule takeWhile_eq_take)
  then have g: "group1 s (i, e) = label"
    unfolding group1_def slice_def e by simp
  show "\<forall>c\<in>set (group1 s (i, e)). label_char c"
    unfolding g label_def by (auto dest: set_takeWhileD)
  show "group1 s (i, e) \<noteq> []" unfolding g by fact
  from p obtain r where r: "drop i s = ''## ['' @ r" by (auto simp: prefix_def)
  have "drop (i + 4) s = drop 4 (drop i s)" by (simp add: add.commute)
  then have r4: "drop (i + 4) s = r" unfolding r by simp
  have "r = label @ drop (length label) r"
    using \<open>label = take (length label) (drop (i + 4) s)\<close> r4 by (metis append_take_drop_id)
  moreover have "drop (i + 4 + length label) s = drop (length label) (drop (i + 4) s)"
    by (simp add: add.commute)
  then have "drop (i + 4 + length label) s = drop (length label) r"
    unfolding r4 .
  ultimately obtain r' where "r = label @ '']'' @ r'"
    using c unfolding prefix_def by metis
  then show "prefix (''## ['' @ group1 s (i, e) @ '']'') (drop i s)"
    unfolding g r by simp
qed


lemma find_previous_version_Inr:
  assumes "find_previous_version upper (us, ue) = Inr (prev_version, rel, body)"
  shows "ue \<le> rel" "rel \<le> length upper" "\<forall>c\<in>set prev_version. label_char c"
    "body = strip (slice upper ue rel)"
    "prefix (''## ['' @ prev_version @ '']'') (drop rel upper)"
proof -
  from assms obtain e where s: "search (release_at upper) upper ue = Some (rel, e)"
    and pv: "prev_version = group1 upper (rel, e)"
    and b: "body = strip (slice upper ue rel)"
    by (auto simp: find_previous_version_def Let_def split: option.splits)
  from s have 1: "ue \<le> rel" "rel \<le> length upper" "release_at upper rel = Some e"
    by (auto simp: search_Some_iff)
  show "ue \<le> rel" "rel \<le> length upper" "body = strip (slice upper ue rel)" by fact+
  show "\<forall>c\<in>set prev_version. label_char c"
    unfolding pv by (rule release_at_Some(4) [OF 1(3)])
  show "prefix (''## ['' @ prev_version @ '']'') (drop rel upper)"
    unfolding pv by (rule release_at_Some(6) [OF 1(3)])
qed

text \<open>The substitution that resets the Unreleased region.\<close>

lemma lit_Some: "lit p s i = Some j \<Longrightarrow> j = i + length p \<and> prefix p (drop i s)"
  by (simp add: lit_def split: if_splits)

lemma drop_within:
  assumes "e \<le> n" "n \<le> length xs"
  shows "drop e xs = drop e (take n xs) @ drop n xs"
proof -
  have "drop e (take n xs @ drop n xs) =
      drop e (take n xs) @ drop (e - length (take n xs)) (drop n xs)"
    by (rule drop_append)
  moreover have "e - length (take n xs) = 0" using assms by simp
  ultimately have "drop e (take n xs @ drop n xs) = drop e (take n xs) @ drop n xs"
    by simp
  then show ?thesis by (simp only: append_take_drop_id)
qed

lemma reset_unreleased_keeps_tail:
  assumes "\<exists>head. kept = head @ ''## [Unreleased]''"
  shows "\<exists>head. reset_unreleased (kept @ [nl, nl] @ ''## ['' @ t) = head @ ''## ['' @ t"
proof -
  from assms obtain p where kept: "kept = p @ ''## [Unreleased]''" by blast
  define X where "X = kept @ [nl, nl] @ ''## ['' @ t"
  define look where
    "look = (\<lambda>k. if prefix ''## ['' (drop k X) \<or> at_end (drop k X) then Some k else None)"
  define us where "us = length p"
  have stretch: "unreleased_stretch_at X i =
      (case lit ''## [Unreleased]'' X i of None \<Rightarrow> None
       | Some j \<Rightarrow> map_option fst (search look X j))" for i
    unfolding unreleased_stretch_at_def look_def ..
  have L: "length ''## [Unreleased]'' = 15" by simp
  have dX: "drop (us + 17) X = ''## ['' @ t" by (simp add: X_def kept us_def)
  have look17: "look (us + 17) = Some (us + 17)" unfolding look_def dX by simp
  have le17: "us + 17 \<le> length X" by (simp add: X_def kept us_def)
  have lit_us: "lit ''## [Unreleased]'' X us = Some (us + 15)"
    by (simp add: lit_def X_def kept us_def)
  obtain i0 e0 where "search look X (us + 15) = Some (i0, e0)"
    using search_at_most [of "us + 15" "us + 17" X look "us + 17"] le17 look17 by auto
  then have at_us: "unreleased_stretch_at X us = Some i0"
    unfolding stretch lit_us by simp
  have "us \<le> length X" using le17 by simp
  from search_at_most [of 0 us X "unreleased_stretch_at X" i0] this at_us
  obtain s e where se: "search (unreleased_stretch_at X) X 0 = Some (s, e)"
    and s: "s \<le> us" and m: "unreleased_stretch_at X s = Some e"
    by auto
  from m obtain j where j: "lit ''## [Unreleased]'' X s = Some j"
    and "map_option fst (search look X j) = Some e"
    unfolding stretch by (auto split: option.splits)
  then obtain k where k: "search look X j = Some (e, k)" by auto
  have "j = s + 15" using lit_Some [OF j] L by simp
  then have "j \<le> us + 17" using s by simp
  from search_at_most [of j "us + 17" X look "us + 17"] this le17 look17
  obtain i' e' where "search look X j = Some (i', e')" and "i' \<le> us + 17"
    by auto
  with k have e: "e \<le> us + 17" by simp
  have "drop e X = drop e (take (us + 17) X) @ ''## ['' @ t"
    using drop_within [OF e le17] unfolding dX .
  then have "reset_unreleased X =
      (take s X @ ''## [Unreleased]'' @ [nl, nl] @ drop e (take (us + 17) X)) @ ''## ['' @ t"
    unfolding reset_unreleased_def se by simp
  then show ?thesis unfolding X_def by blast
qed


lemma reset_unreleased_first_occurrence:
  assumes first: "\<forall>j<length p. \<not> prefix ''## [Unreleased]'' (drop j (p @ ''## [Unreleased]''))"
  shows "reset_unreleased (p @ ''## [Unreleased]'' @ [nl, nl] @ ''## ['' @ t) =
           p @ ''## [Unreleased]'' @ [nl, nl] @ ''## ['' @ t"
proof -
  define X where "X = p @ ''## [Unreleased]'' @ [nl, nl] @ ''## ['' @ t"
  define look where
    "look = (\<lambda>k. if prefix ''## ['' (drop k X) \<or> at_end (drop k X) then Some k else None)"
  define us where "us = length p"
  have stretch: "unreleased_stretch_at X i =
      (case lit ''## [Unreleased]'' X i of None \<Rightarrow> None
       | Some j \<Rightarrow> map_option fst (search look X j))" for i
    unfolding unreleased_stretch_at_def look_def ..
  have d15: "drop (us + 15) X = nl # nl # ''## ['' @ t"
    and d16: "drop (us + 16) X = nl # ''## ['' @ t"
    and d17: "drop (us + 17) X = ''## ['' @ t"
    by (simp_all add: X_def us_def)
  have le17: "us + 17 \<le> length X" by (simp add: X_def us_def)
  have look: "look (us + 15) = None" "look (us + 16) = None" "look (us + 17) = Some (us + 17)"
    unfolding look_def d15 d16 d17 by (simp_all add: at_end_def)
  have "\<forall>j. us + 15 \<le> j \<and> j < us + 17 \<longrightarrow> look j = None"
  proof (intro allI impI)
    fix j assume "us + 15 \<le> j \<and> j < us + 17"
    then have "j = us + 15 \<or> j = us + 16" by arith
    then show "look j = None" using look by blast
  qed
  then have inner: "search look X (us + 15) = Some (us + 17, us + 17)"
    unfolding search_Some_iff using le17 look(3) by simp
  have lit_us: "lit ''## [Unreleased]'' X us = Some (us + 15)"
    by (simp add: lit_def X_def us_def)
  have at_us: "unreleased_stretch_at X us = Some (us + 17)"
    by (simp add: stretch lit_us inner)
  have before: "\<forall>j. 0 \<le> j \<and> j < us \<longrightarrow> unreleased_stretch_at X j = None"
  proof (intro allI impI)
    fix j assume "0 \<le> j \<and> j < us"
    then have j: "j < length p" by (simp add: us_def)
    have "drop j X = drop j (p @ ''## [Unreleased]'') @ ([nl, nl] @ ''## ['' @ t)"
      using j by (simp add: X_def)
    moreover have "length ''## [Unreleased]'' \<le> length (drop j (p @ ''## [Unreleased]''))"
      using j by simp
    ultimately have "prefix ''## [Unreleased]'' (drop j X) \<longleftrightarrow>
        prefix ''## [Unreleased]'' (drop j (p @ ''## [Unreleased]''))"
      using prefix_append_long by metis
    then have "\<not> prefix ''## [Unreleased]'' (drop j X)" using first j by blast
    then have "lit ''## [Unreleased]'' X j = None" by (simp add: lit_def)
    then show "unreleased_stretch_at X j = None" unfolding stretch by simp
  qed
  have "search (unreleased_stretch_at X) X 0 = Some (us, us + 17)"
    unfolding search_Some_iff using at_us before le17 by simp
  then have "reset_unreleased X = take us X @ ''## [Unreleased]'' @ [nl, nl] @ drop (us + 17) X"
    unfolding reset_unreleased_def by simp
  also have "\<dots> = X" unfolding d17 by (simp add: X_def us_def)
  finally show ?thesis unfolding X_def .
qed

lemma updated_content_Inr:
  assumes "updated_content new_version pr_number date content = Inr text"
  shows "\<exists>upper bottom us ue prev_version rel body updated_bottom.
      split_changelog_content content = Inr (upper, bottom) \<and>
      find_unreleased_section upper = Inr (us, ue) \<and>
      find_previous_version upper (us, ue) = Inr (prev_version, rel, body) \<and>
      update_link_definitions bottom new_version prev_version = Some updated_bottom \<and>
      text =
        reset_unreleased
          (take ue upper @ [nl, nl] @ ''## ['' @ new_version @ ''] '' @ date @ [nl, nl] @
           add_pr_link
             (create_new_entry body
                (new_entry_line (extract_nearcore_version new_version) pr_number))
             (pr_link_line pr_number) @
           [nl, nl] @ drop rel upper) @
        updated_bottom"
  using assms unfolding updated_content_def
  by (auto simp: Let_def split: sum.splits prod.splits option.splits)

lemma get_date_and_path_eq:
  "get_date_and_path w =
     (if files w (changelog_path w) = None then Inl (Not_found (changelog_path w))
      else Inr (today w, changelog_path w))"
  by (auto simp: get_date_and_path_def changelog_path_def truthy_def Let_def split: option.splits)

lemma heading_found_iff:
  "search (lit p s) s 0 \<noteq> None \<longleftrightarrow> sublist p s"
proof
  assume "search (lit p s) s 0 \<noteq> None"
  then obtain i where "i \<le> length s" "lit p s i \<noteq> None"
    unfolding search_not_None_iff by blast
  then have "prefix p (drop i s)" by (simp add: lit_def split: if_splits)
  then obtain r where "drop i s = p @ r" by (auto simp: prefix_def)
  then have "s = take i s @ p @ r" by (metis append_take_drop_id)
  then show "sublist p s" unfolding sublist_def by blast
next
  assume "sublist p s"
  then obtain a b where s: "s = a @ p @ b" unfolding sublist_def by blast
  have "lit p s (length a) \<noteq> None" by (simp add: lit_def s)
  moreover have "length a \<le> length s" by (simp add: s)
  ultimately show "search (lit p s) s 0 \<noteq> None"
    unfolding search_not_None_iff by blast
qed

text \<open>The run, stage by stage.\<close>

lemma update_changelog_invalid:
  assumes "NEW_VERSION w = Some v" "v \<noteq> []" "\<not> validate_version (Some v)"
  shows "update_changelog w = failed w (Invalid_version_format v)"
  using assms by (simp add: update_changelog_def failed_def truthy_def Let_def)

lemma update_changelog_unset:
  assumes "\<not> truthy (NEW_VERSION w) \<or> \<not> truthy (PR_NUMBER w)"
    and "truthy (NEW_VERSION w) \<longrightarrow> validate_version (NEW_VERSION w)"
  shows "update_changelog w = failed w Variables_must_be_set"
  using assms by (auto simp: update_changelog_def failed_def Let_def)

lemma update_changelog_configured:
  assumes "NEW_VERSION w = Some v" "validate_version (Some v)" "PR_NUMBER w = Some pr" "pr \<noteq> []"
  shows "update_changelog w =
     (case files w (changelog_path w) of
        None \<Rightarrow> failed w (Not_found (changelog_path w))
      | Some content \<Rightarrow>
          if sublist (version_heading v) content then skipped w v
          else (case updated_content v pr (today w) content of
                  Inl e \<Rightarrow> failed w e
                | Inr text \<Rightarrow> written w v text))"
proof -
  have v: "v \<noteq> []" using assms(2) by (auto simp: validate_version_def)
  have t: "truthy (NEW_VERSION w)" "truthy (PR_NUMBER w)" "validate_version (NEW_VERSION w)"
    using assms v by (simp_all add: truthy_def)
  show ?thesis
  proof (cases "files w (changelog_path w)")
    case None
    then show ?thesis
      using t by (simp add: update_changelog_def Let_def get_date_and_path_eq failed_def)
  next
    case (Some content)
    have h: "search (lit (''## ['' @ v @ '']'') content) content 0 \<noteq> None \<longleftrightarrow>
        sublist (version_heading v) content"
      unfolding version_heading_def by (rule heading_found_iff)
    show ?thesis
      using t Some assms(1,3) h
      by (simp add: update_changelog_def Let_def get_date_and_path_eq failed_def skipped_def
          written_def split: sum.splits)
  qed
qed

lemma split_changelog_content_Inl:
  "(\<nexists>i. begins_line content i ''[Unreleased]:'') \<Longrightarrow>
   split_changelog_content content = Inl No_link_definitions_section"
proof -
  assume "\<nexists>i. begins_line content i ''[Unreleased]:''"
  then have "search (link_section_at content) content 0 = None"
    by (auto simp: search_None_iff link_section_at_None)
  then show ?thesis by (simp add: split_changelog_content_def)
qed

lemma find_unreleased_section_Inl:
  assumes "\<nexists>i. begins_line upper i ''## [Unreleased]''"
  shows "find_unreleased_section upper = Inl No_unreleased_section"
proof -
  have "unreleased_at upper j = None" if "j \<le> length upper" for j
    using assms that by (auto simp: unreleased_at_def lit_def begins_line_def bol_def)
  then have "search (unreleased_at upper) upper 0 = None"
    by (simp add: search_None_iff)
  then show ?thesis by (simp add: find_unreleased_section_def)
qed

lemma not_label_char_bracket [simp]: "\<not> label_char (CHR '']'')"
  by (simp add: label_char_def digit_def lower_def)

lemma release_at_iff:
  assumes "i \<le> length s"
  shows "release_at s i \<noteq> None \<longleftrightarrow> release_heading s i"
proof
  assume "release_at s i \<noteq> None"
  then obtain e where e: "release_at s i = Some e" by auto
  from release_at_Some [OF e]
  have "bol s i" "prefix ''## ['' (drop i s)" "group1 s (i, e) \<noteq> []"
    "\<forall>c\<in>set (group1 s (i, e)). label_char c"
    "prefix (''## ['' @ group1 s (i, e) @ '']'') (drop i s)"
    by blast+
  then show "release_heading s i"
    unfolding release_heading_def begins_line_def bol_def prefix_def using assms
    by (metis append.assoc)
next
  assume "release_heading s i"
  then obtain label rest where b: "bol s i" and p: "prefix ''## ['' (drop i s)"
    and l: "label \<noteq> []" "\<forall>c\<in>set label. label_char c"
    and d: "drop i s = ''## ['' @ label @ '']'' @ rest"
    unfolding release_heading_def begins_line_def bol_def by blast
  have "drop (i + 4) s = drop 4 (drop i s)" by (simp add: add.commute)
  then have d4: "drop (i + 4) s = label @ CHR '']'' # rest" unfolding d by simp
  have tw: "takeWhile label_char (drop (i + 4) s) = label"
    unfolding d4 using l(2) by (simp add: takeWhile_tail)
  have "drop (i + 4 + length label) s = drop (length label) (drop (i + 4) s)"
    by (simp add: add.commute)
  then have "drop (i + 4 + length label) s = CHR '']'' # rest" unfolding d4 by simp
  then show "release_at s i \<noteq> None"
    unfolding release_at_def Let_def tw using b p l(1) by simp
qed

lemma find_previous_version_Inl:
  assumes "\<nexists>i. ue \<le> i \<and> release_heading upper i"
  shows "find_previous_version upper (us, ue) = Inl No_previous_release"
proof -
  have "release_at upper j = None" if "ue \<le> j" "j \<le> length upper" for j
    using assms that release_at_iff [OF that(2)] by blast
  then have "search (release_at upper) upper ue = None"
    by (simp add: search_None_iff)
  then show ?thesis by (simp add: find_previous_version_def)
qed

lemma updated_content_malformed:
  assumes "malformed content"
  shows "\<exists>e. updated_content v pr date content = Inl e \<and> diagnostic e"
proof -
  from assms consider
      "\<nexists>i. begins_line content i ''[Unreleased]:''"
    | upper bottom where "split_changelog_content content = Inr (upper, bottom)"
        "\<nexists>i. begins_line upper i ''## [Unreleased]''"
    | upper bottom us ue where "split_changelog_content content = Inr (upper, bottom)"
        "find_unreleased_section upper = Inr (us, ue)"
        "\<nexists>i. ue \<le> i \<and> release_heading upper i"
    unfolding malformed_def by blast
  then show ?thesis
  proof cases
    case 1
    then show ?thesis
      by (simp add: updated_content_def split_changelog_content_Inl)
  next
    case 2
    then show ?thesis
      by (simp add: updated_content_def find_unreleased_section_Inl)
  next
    case 3
    then show ?thesis
      by (simp add: updated_content_def find_previous_version_Inl)
  qed
qed

lemma updated_content_Inl:
  assumes "updated_content v pr date content = Inl e" "validate_version (Some v)"
  shows "diagnostic e"
proof -
  have nb: "backslash \<notin> set v" using assms(2) by (rule validate_version_no_backslash)
  show ?thesis
  proof (cases "split_changelog_content content")
    case (Inl e1)
    then have "e1 = No_link_definitions_section"
      by (auto simp: split_changelog_content_def split: option.splits)
    then show ?thesis using assms(1) Inl by (simp add: updated_content_def)
  next
    case (Inr ub)
    obtain upper bottom where ub: "ub = (upper, bottom)" by (cases ub)
    show ?thesis
    proof (cases "find_unreleased_section upper")
      case (Inl e2)
      then have "e2 = No_unreleased_section"
        by (auto simp: find_unreleased_section_def split: option.splits)
      then show ?thesis using assms(1) Inr ub Inl by (simp add: updated_content_def)
    next
      case m: (Inr m)
      obtain us ue where m': "m = (us, ue)" by (cases m)
      show ?thesis
      proof (cases "find_previous_version upper (us, ue)")
        case (Inl e3)
        then have "e3 = No_previous_release"
          by (auto simp: find_previous_version_def Let_def split: option.splits)
        then show ?thesis using assms(1) Inr ub m m' Inl by (simp add: updated_content_def)
      next
        case r: (Inr r)
        obtain prev rel body where r': "r = (prev, rel, body)" by (cases r)
        have "\<forall>c\<in>set prev. label_char c"
          using find_previous_version_Inr(3) r r' by blast
        then have "backslash \<notin> set prev" using label_char_simps(1) by blast
        then have "update_link_definitions bottom v prev \<noteq> None"
          using nb by (simp add: update_link_definitions_def Let_def)
        then show ?thesis
          using assms(1) Inr ub m m' r r'
          by (auto simp: updated_content_def Let_def split: option.splits)
      qed
    qed
  qed
qed

lemma updated_content_shape:
  assumes "updated_content v pr date content = Inr text"
  shows "\<exists>upper bottom us ue prev rel body updated_bottom head.
      split_changelog_content content = Inr (upper, bottom) \<and>
      find_unreleased_section upper = Inr (us, ue) \<and>
      find_previous_version upper (us, ue) = Inr (prev, rel, body) \<and>
      update_link_definitions bottom v prev = Some updated_bottom \<and>
      text = head @ ''## ['' @ v @ ''] '' @ date @ [nl, nl] @
             add_pr_link (create_new_entry body (new_entry_line (extract_nearcore_version v) pr))
               (pr_link_line pr) @
             [nl, nl] @ drop rel upper @ updated_bottom \<and>
      ((\<forall>j<us. \<not> prefix ''## [Unreleased]'' (drop j upper)) \<longrightarrow>
         head = take us upper @ ''## [Unreleased]'' @ [nl, nl])"
proof -
  from updated_content_Inr [OF assms]
  obtain upper bottom us ue prev rel body updated_bottom where
    sp: "split_changelog_content content = Inr (upper, bottom)"
    and fu: "find_unreleased_section upper = Inr (us, ue)"
    and fp: "find_previous_version upper (us, ue) = Inr (prev, rel, body)"
    and ul: "update_link_definitions bottom v prev = Some updated_bottom"
    and tx: "text =
        reset_unreleased
          (take ue upper @ [nl, nl] @ ''## ['' @ v @ ''] '' @ date @ [nl, nl] @
           add_pr_link
             (create_new_entry body (new_entry_line (extract_nearcore_version v) pr))
             (pr_link_line pr) @
           [nl, nl] @ drop rel upper) @
        updated_bottom"
    by blast
  define t where "t = v @ ''] '' @ date @ [nl, nl] @
           add_pr_link
             (create_new_entry body (new_entry_line (extract_nearcore_version v) pr))
             (pr_link_line pr) @
           [nl, nl] @ drop rel upper"
  have kept: "take ue upper = take us upper @ ''## [Unreleased]''"
    using find_unreleased_section_Inr(4) [OF fu] .
  have us: "us \<le> length upper" using find_unreleased_section_Inr(1) [OF fu] .
  have X: "take ue upper @ [nl, nl] @ ''## ['' @ v @ ''] '' @ date @ [nl, nl] @
           add_pr_link
             (create_new_entry body (new_entry_line (extract_nearcore_version v) pr))
             (pr_link_line pr) @
           [nl, nl] @ drop rel upper = take ue upper @ [nl, nl] @ ''## ['' @ t"
    by (simp add: t_def)
  have "\<exists>head. reset_unreleased (take ue upper @ [nl, nl] @ ''## ['' @ t) = head @ ''## ['' @ t \<and>
      ((\<forall>j<us. \<not> prefix ''## [Unreleased]'' (drop j upper)) \<longrightarrow>
         head = take us upper @ ''## [Unreleased]'' @ [nl, nl])"
  proof (cases "\<forall>j<us. \<not> prefix ''## [Unreleased]'' (drop j upper)")
    case True
    have "\<forall>j<length (take us upper).
        \<not> prefix ''## [Unreleased]'' (drop j (take us upper @ ''## [Unreleased]''))"
    proof (intro allI impI)
      fix j assume "j < length (take us upper)"
      then have j: "j < us" by simp
      have "upper = take ue upper @ drop ue upper" by simp
      then have "upper = (take us upper @ ''## [Unreleased]'') @ drop ue upper"
        unfolding kept .
      then have "drop j upper = drop j ((take us upper @ ''## [Unreleased]'') @ drop ue upper)"
        by simp
      also have "\<dots> = drop j (take us upper @ ''## [Unreleased]'') @ drop ue upper"
        using j us by simp
      finally have "drop j upper = drop j (take us upper @ ''## [Unreleased]'') @ drop ue upper" .
      moreover have "length ''## [Unreleased]'' \<le> length (drop j (take us upper @ ''## [Unreleased]''))"
        using j us by simp
      ultimately have "prefix ''## [Unreleased]'' (drop j upper) \<longleftrightarrow>
          prefix ''## [Unreleased]'' (drop j (take us upper @ ''## [Unreleased]''))"
        using prefix_append_long by metis
      then show "\<not> prefix ''## [Unreleased]'' (drop j (take us upper @ ''## [Unreleased]''))"
        using True j by blast
    qed
    from reset_unreleased_first_occurrence [OF this, of t]
    have "reset_unreleased (take ue upper @ [nl, nl] @ ''## ['' @ t) =
        (take us upper @ ''## [Unreleased]'' @ [nl, nl]) @ ''## ['' @ t"
      unfolding kept by simp
    then show ?thesis by blast
  next
    case False
    have "\<exists>head. take ue upper = head @ ''## [Unreleased]''" using kept by blast
    from reset_unreleased_keeps_tail [OF this, of t] False show ?thesis by blast
  qed
  then obtain head where
    h: "reset_unreleased (take ue upper @ [nl, nl] @ ''## ['' @ t) = head @ ''## ['' @ t"
    and h1: "(\<forall>j<us. \<not> prefix ''## [Unreleased]'' (drop j upper)) \<longrightarrow>
         head = take us upper @ ''## [Unreleased]'' @ [nl, nl]"
    by blast
  have "text = head @ ''## ['' @ v @ ''] '' @ date @ [nl, nl] @
             add_pr_link (create_new_entry body (new_entry_line (extract_nearcore_version v) pr))
               (pr_link_line pr) @
             [nl, nl] @ drop rel upper @ updated_bottom"
    unfolding tx X h by (simp add: t_def)
  with sp fu fp ul h1 show ?thesis by blast
qed

lemma updated_content_has_heading:
  assumes "updated_content v pr date content = Inr text"
  shows "sublist (version_heading v) text"
proof -
  from updated_content_shape [OF assms] obtain head rest where
    "text = head @ ''## ['' @ v @ ''] '' @ rest" by blast
  then have "text = head @ version_heading v @ ('' '' @ rest)"
    by (simp add: version_heading_def)
  then show ?thesis unfolding sublist_def by blast
qed

lemma update_changelog_outcomes:
  "(\<exists>e. diagnostic e \<and> update_changelog w = failed w e) \<or>
   (\<exists>v pr content. NEW_VERSION w = Some v \<and> validate_version (Some v) \<and>
      PR_NUMBER w = Some pr \<and> pr \<noteq> [] \<and>
      files w (changelog_path w) = Some content \<and>
      ((sublist (version_heading v) content \<and> update_changelog w = skipped w v) \<or>
       (\<not> sublist (version_heading v) content \<and>
        (\<exists>text. updated_content v pr (today w) content = Inr text \<and>
           update_changelog w = written w v text))))"
proof (cases "truthy (NEW_VERSION w) \<and> validate_version (NEW_VERSION w) \<and> truthy (PR_NUMBER w)")
  case False
  show ?thesis
  proof (cases "truthy (NEW_VERSION w) \<and> \<not> validate_version (NEW_VERSION w)")
    case True
    then obtain v where "NEW_VERSION w = Some v" "v \<noteq> []" "\<not> validate_version (Some v)"
      by (auto simp: truthy_def split: option.splits)
    then have "update_changelog w = failed w (Invalid_version_format v)"
      by (rule update_changelog_invalid)
    then show ?thesis using diagnostic.simps(1) by blast
  next
    case f: False
    then have "update_changelog w = failed w Variables_must_be_set"
      using False by (intro update_changelog_unset) auto
    then show ?thesis using diagnostic.simps(2) by blast
  qed
next
  case True
  then obtain v pr where c: "NEW_VERSION w = Some v" "validate_version (Some v)"
      "PR_NUMBER w = Some pr" "pr \<noteq> []"
    by (auto simp: truthy_def split: option.splits)
  note u = update_changelog_configured [OF c]
  show ?thesis
  proof (cases "files w (changelog_path w)")
    case None
    then have "update_changelog w = failed w (Not_found (changelog_path w))"
      using u by simp
    then show ?thesis using diagnostic.simps(3) by blast
  next
    case (Some content)
    show ?thesis
    proof (cases "sublist (version_heading v) content")
      case True
      then have "update_changelog w = skipped w v" using u Some by simp
      then show ?thesis using c Some True by blast
    next
      case False
      show ?thesis
      proof (cases "updated_content v pr (today w) content")
        case (Inl e)
        then have "update_changelog w = failed w e" using u Some False by simp
        moreover have "diagnostic e" using updated_content_Inl [OF Inl c(2)] .
        ultimately show ?thesis by blast
      next
        case (Inr txt1)
        then have "update_changelog w = written w v txt1" using u Some False by simp
        then show ?thesis using c Some False Inr by blast
      qed
    qed
  qed
qed

subsection \<open>Runs of \<^verbatim>\<open>update_changelog\<close>\<close>

lemma changelog_path_files [simp]: "changelog_path (w\<lparr>files := f\<rparr>) = changelog_path w"
  by (simp add: changelog_path_def)

lemma outcome_simps [simp]:
  "exit_status (failed w e) = 1" "printed (failed w e) = [e]" "files_after (failed w e) = files w"
  "exit_status (skipped w v) = 0" "printed (skipped w v) = [Already_exists v (changelog_path w)]"
  "files_after (skipped w v) = files w"
  "exit_status (written w v t) = 0"
  "printed (written w v t) = [Successfully_updated (changelog_path w) v]"
  "files_after (written w v t) = (files w)(changelog_path w \<mapsto> t)"
  by (simp_all add: failed_def skipped_def written_def)

text \<open>
  Claim C1. In a configured run (a valid \<^verbatim>\<open>NEW_VERSION\<close>, a \<^verbatim>\<open>PR_NUMBER\<close>) on a changelog file one
  of whose lines begins with the heading \<^verbatim>\<open>## [<NEW_VERSION>]\<close>, the process exits with status 0,
  prints the skip message and leaves every file as it was. Consequently, after any run that
  exits with status 0, a second run with the same environment on the files the first one
  left exits with status 0, prints the skip message and leaves those files unchanged.
\<close>

theorem update_changelog_idempotent:
  "(NEW_VERSION w = Some v \<and> validate_version (Some v) \<and> truthy (PR_NUMBER w) \<and>
    files w (changelog_path w) = Some content \<and>
    (\<exists>i. begins_line content i (version_heading v)) \<longrightarrow>
      exit_status (update_changelog w) = 0 \<and>
      printed (update_changelog w) = [Already_exists v (changelog_path w)] \<and>
      files_after (update_changelog w) = files w) \<and>
   (exit_status (update_changelog w) = 0 \<longrightarrow>
      exit_status (update_changelog (w\<lparr>files := files_after (update_changelog w)\<rparr>)) = 0 \<and>
      (\<exists>v'. printed (update_changelog (w\<lparr>files := files_after (update_changelog w)\<rparr>)) =
         [Already_exists v' (changelog_path w)]) \<and>
      files_after (update_changelog (w\<lparr>files := files_after (update_changelog w)\<rparr>)) =
        files_after (update_changelog w))"
proof (intro conjI impI)
  assume h: "NEW_VERSION w = Some v \<and> validate_version (Some v) \<and> truthy (PR_NUMBER w) \<and>
    files w (changelog_path w) = Some content \<and>
    (\<exists>i. begins_line content i (version_heading v))"
  then obtain pr where pr: "PR_NUMBER w = Some pr" "pr \<noteq> []"
    by (auto simp: truthy_def split: option.splits)
  from h obtain i where "begins_line content i (version_heading v)" by blast
  then have "prefix (version_heading v) (drop i content)" by (simp add: begins_line_def)
  then obtain r where "drop i content = version_heading v @ r" by (auto simp: prefix_def)
  then have "content = take i content @ version_heading v @ r"
    by (metis append_take_drop_id)
  then have "sublist (version_heading v) content" unfolding sublist_def by blast
  then have u: "update_changelog w = skipped w v"
    using update_changelog_configured [of w v pr] h pr by simp
  show "exit_status (update_changelog w) = 0"
    "printed (update_changelog w) = [Already_exists v (changelog_path w)]"
    "files_after (update_changelog w) = files w"
    unfolding u by simp_all
next
  assume ok: "exit_status (update_changelog w) = 0"
  let ?w' = "w\<lparr>files := files_after (update_changelog w)\<rparr>"
  have "\<exists>v'. update_changelog ?w' = skipped ?w' v' \<and> files ?w' = files_after (update_changelog w)"
  proof -
    from update_changelog_outcomes [of w] ok
    obtain v' pr content where c: "NEW_VERSION w = Some v'" "validate_version (Some v')"
        "PR_NUMBER w = Some pr" "pr \<noteq> []"
      and f: "files w (changelog_path w) = Some content"
      and d: "(sublist (version_heading v') content \<and> update_changelog w = skipped w v') \<or>
       (\<not> sublist (version_heading v') content \<and>
        (\<exists>t. updated_content v' pr (today w) content = Inr t \<and>
           update_changelog w = written w v' t))"
      by auto
    have c': "NEW_VERSION ?w' = Some v'" "PR_NUMBER ?w' = Some pr" using c by simp_all
    note u = update_changelog_configured [OF c'(1) c(2) c'(2) c(4)]
    from d show ?thesis
    proof
      assume s: "sublist (version_heading v') content \<and> update_changelog w = skipped w v'"
      then have "files ?w' (changelog_path ?w') = Some content" using f by simp
      then have "update_changelog ?w' = skipped ?w' v'" using u s by simp
      then show ?thesis by auto
    next
      assume "\<not> sublist (version_heading v') content \<and>
        (\<exists>t. updated_content v' pr (today w) content = Inr t \<and>
           update_changelog w = written w v' t)"
      then obtain t where t: "updated_content v' pr (today w) content = Inr t"
        and wr: "update_changelog w = written w v' t" by blast
      have "files ?w' (changelog_path ?w') = Some t" using wr by simp
      moreover have "sublist (version_heading v') t" using updated_content_has_heading [OF t] .
      ultimately have "update_changelog ?w' = skipped ?w' v'" using u by simp
      then show ?thesis by auto
    qed
  qed
  then obtain v' where u': "update_changelog ?w' = skipped ?w' v'"
    and f': "files ?w' = files_after (update_changelog w)" by blast
  show "exit_status (update_changelog ?w') = 0" unfolding u' by simp
  show "\<exists>v'. printed (update_changelog ?w') = [Already_exists v' (changelog_path w)]"
    unfolding u' by simp
  show "files_after (update_changelog ?w') = files_after (update_changelog w)"
    unfolding u' using f' by simp
qed




lemma updated_content_succeeds:
  assumes "split_changelog_content content = Inr (upper, bottom)"
    and "find_unreleased_section upper = Inr m"
    and "find_previous_version upper m = Inr (prev, rel, body)"
    and "validate_version (Some v)"
  shows "\<exists>t. updated_content v pr date content = Inr t"
proof -
  obtain us ue where m: "m = (us, ue)" by (cases m)
  have "\<forall>c\<in>set prev. label_char c"
    using find_previous_version_Inr(3) assms(3) m by blast
  then have "backslash \<notin> set prev" using label_char_simps(1) by blast
  moreover have "backslash \<notin> set v" using assms(4) by (rule validate_version_no_backslash)
  ultimately obtain b' where "update_link_definitions bottom v prev = Some b'"
    by (simp add: update_link_definitions_def Let_def)
  then show ?thesis
    using assms(1-3) by (simp add: updated_content_def Let_def)
qed

lemma example_stages:
  "split_changelog_content (example_upper @ example_bottom) = Inr (example_upper, example_bottom)"
  "find_unreleased_section example_upper = Inr (7, 22)"
  "find_previous_version example_upper (7, 22) = Inr (''1.0-2.0'', 31, ''* foo'')"
  "\<not> sublist (version_heading ''1.2.3-4.5.6'') (example_upper @ example_bottom)"
  "validate_version (Some ''1.2.3-4.5.6'')"
  by code_simp+

lemma example_world_written:
  "\<exists>t. updated_content ''1.2.3-4.5.6'' ''42'' ''2026-11-04'' (example_upper @ example_bottom) = Inr t \<and>
       update_changelog example_world = written example_world ''1.2.3-4.5.6'' t"
proof -
  obtain t where t: "updated_content ''1.2.3-4.5.6'' ''42'' ''2026-11-04''
      (example_upper @ example_bottom) = Inr t"
    using updated_content_succeeds [OF example_stages(1,2,3,5)] by blast
  have "update_changelog example_world = written example_world ''1.2.3-4.5.6'' t"
    using update_changelog_configured [of example_world "''1.2.3-4.5.6''" "''42''"]
      example_stages(4,5) t
    by (simp add: example_world_def changelog_path_def)
  with t show ?thesis by blast
qed

theorem update_changelog_idempotent_witness:
  "exit_status (update_changelog (example_world\<lparr>NEW_VERSION := Some ''1.0-2.0''\<rparr>)) = 0 \<and>
   printed (update_changelog (example_world\<lparr>NEW_VERSION := Some ''1.0-2.0''\<rparr>)) =
     [Already_exists ''1.0-2.0'' ''CHANGES.md''] \<and>
   files_after (update_changelog (example_world\<lparr>NEW_VERSION := Some ''1.0-2.0''\<rparr>)) =
     files example_world \<and>
   exit_status (update_changelog example_world) = 0 \<and>
   exit_status
     (update_changelog (example_world\<lparr>files := files_after (update_changelog example_world)\<rparr>)) = 0 \<and>
   files_after
     (update_changelog (example_world\<lparr>files := files_after (update_changelog example_world)\<rparr>)) =
   files_after (update_changelog example_world)"
proof -
  define w1 where "w1 = example_world\<lparr>NEW_VERSION := Some ''1.0-2.0''\<rparr>"
  have p1: "changelog_path w1 = ''CHANGES.md''"
    by (simp add: w1_def changelog_path_def example_world_def)
  have f1: "files w1 = files example_world" by (simp add: w1_def)
  have b31: "begins_line (example_upper @ example_bottom) 31 (version_heading ''1.0-2.0'')"
    by code_simp
  have b: "\<exists>i. begins_line (example_upper @ example_bottom) i (version_heading ''1.0-2.0'')"
    by (rule exI [where x = 31]) (rule b31)
  have v: "validate_version (Some ''1.0-2.0'')" by code_simp
  have n: "NEW_VERSION w1 = Some ''1.0-2.0''" by (simp add: w1_def)
  have t: "truthy (PR_NUMBER w1)" by (simp add: w1_def example_world_def truthy_def)
  have f: "files w1 (changelog_path w1) = Some (example_upper @ example_bottom)"
    unfolding p1 by (simp add: w1_def example_world_def)
  have h1: "NEW_VERSION w1 = Some ''1.0-2.0'' \<and> validate_version (Some ''1.0-2.0'') \<and>
      truthy (PR_NUMBER w1) \<and>
      files w1 (changelog_path w1) = Some (example_upper @ example_bottom) \<and>
      (\<exists>i. begins_line (example_upper @ example_bottom) i (version_heading ''1.0-2.0''))"
    using n v t f b by (intro conjI)
  from example_world_written obtain t where
    "update_changelog example_world = written example_world ''1.2.3-4.5.6'' t" by blast
  then have h2: "exit_status (update_changelog example_world) = 0" by simp
  note c1 = update_changelog_idempotent [of w1 "''1.0-2.0''" "example_upper @ example_bottom",
      THEN conjunct1, THEN mp, OF h1]
  note c2 = update_changelog_idempotent [of example_world "[]" "[]", THEN conjunct2, THEN mp, OF h2]
  from c1 have a1: "exit_status (update_changelog w1) = 0" by (rule conjunct1)
  from c1 have a2: "printed (update_changelog w1) = [Already_exists ''1.0-2.0'' ''CHANGES.md'']"
    unfolding p1 by (elim conjE)
  from c1 have a3: "files_after (update_changelog w1) = files example_world"
    unfolding f1 by (elim conjE)
  from c2 have a4: "exit_status
       (update_changelog (example_world\<lparr>files := files_after (update_changelog example_world)\<rparr>)) = 0"
    by (rule conjunct1)
  from c2 have a5: "files_after
       (update_changelog (example_world\<lparr>files := files_after (update_changelog example_world)\<rparr>)) =
     files_after (update_changelog example_world)"
    by (elim conjE)
  show ?thesis
    using a1 a2 a3 h2 a4 a5 unfolding w1_def by (intro conjI)
qed

text \<open>
  The frame of a successful run. The written document is: some text \<open>head\<close>, the heading
  and body of the new release section, two line feeds, the upper region from the offset of
  the previous release heading onward, unchanged, and the updated link region. When the
  Unreleased heading is the first occurrence of the text \<^verbatim>\<open>## [Unreleased]\<close> in the upper
  region, \<open>head\<close> is the text before that heading, unchanged, and the empty Unreleased
  heading. No other file changes.
\<close>

lemma update_changelog_keeps_prior_releases:
  "printed (update_changelog w) = [Successfully_updated p v] \<longrightarrow>
     (\<exists>pr content upper bottom us ue prev rel body updated_bottom head.
        p = changelog_path w \<and> NEW_VERSION w = Some v \<and> PR_NUMBER w = Some pr \<and>
        files w p = Some content \<and>
        split_changelog_content content = Inr (upper, bottom) \<and>
        find_unreleased_section upper = Inr (us, ue) \<and>
        find_previous_version upper (us, ue) = Inr (prev, rel, body) \<and>
        update_link_definitions bottom v prev = Some updated_bottom \<and>
        files_after (update_changelog w) =
          (files w)(p \<mapsto>
             head @ ''## ['' @ v @ ''] '' @ today w @ [nl, nl] @
             add_pr_link
               (create_new_entry body (new_entry_line (extract_nearcore_version v) pr))
               (pr_link_line pr) @
             [nl, nl] @ drop rel upper @ updated_bottom) \<and>
        ((\<forall>j<us. \<not> prefix ''## [Unreleased]'' (drop j upper)) \<longrightarrow>
           head = take us upper @ ''## [Unreleased]'' @ [nl, nl]))"
proof
  assume ok: "printed (update_changelog w) = [Successfully_updated p v]"
  from update_changelog_outcomes [of w] consider
      (failed) e where "diagnostic e" "update_changelog w = failed w e"
    | (skipped) v' where "update_changelog w = skipped w v'"
    | (written) v' pr content t where "NEW_VERSION w = Some v'"
        "PR_NUMBER w = Some pr" "files w (changelog_path w) = Some content"
        "updated_content v' pr (today w) content = Inr t" "update_changelog w = written w v' t"
    by blast
  then show "\<exists>pr content upper bottom us ue prev rel body updated_bottom head.
        p = changelog_path w \<and> NEW_VERSION w = Some v \<and> PR_NUMBER w = Some pr \<and>
        files w p = Some content \<and>
        split_changelog_content content = Inr (upper, bottom) \<and>
        find_unreleased_section upper = Inr (us, ue) \<and>
        find_previous_version upper (us, ue) = Inr (prev, rel, body) \<and>
        update_link_definitions bottom v prev = Some updated_bottom \<and>
        files_after (update_changelog w) =
          (files w)(p \<mapsto>
             head @ ''## ['' @ v @ ''] '' @ today w @ [nl, nl] @
             add_pr_link
               (create_new_entry body (new_entry_line (extract_nearcore_version v) pr))
               (pr_link_line pr) @
             [nl, nl] @ drop rel upper @ updated_bottom) \<and>
        ((\<forall>j<us. \<not> prefix ''## [Unreleased]'' (drop j upper)) \<longrightarrow>
           head = take us upper @ ''## [Unreleased]'' @ [nl, nl])"
  proof cases
    case failed
    then have "e = Successfully_updated p v" using ok by simp
    then show ?thesis using failed(1) by simp
  next
    case skipped
    then show ?thesis using ok by simp
  next
    case written
    from written(5) ok have pv: "p = changelog_path w" "v' = v" by simp_all
    from updated_content_shape [OF written(4)] obtain upper bottom us ue prev rel body
        updated_bottom head where
      s: "split_changelog_content content = Inr (upper, bottom)"
        "find_unreleased_section upper = Inr (us, ue)"
        "find_previous_version upper (us, ue) = Inr (prev, rel, body)"
        "update_link_definitions bottom v' prev = Some updated_bottom"
        "t = head @ ''## ['' @ v' @ ''] '' @ today w @ [nl, nl] @
             add_pr_link
               (create_new_entry body (new_entry_line (extract_nearcore_version v') pr))
               (pr_link_line pr) @
             [nl, nl] @ drop rel upper @ updated_bottom"
        "(\<forall>j<us. \<not> prefix ''## [Unreleased]'' (drop j upper)) \<longrightarrow>
           head = take us upper @ ''## [Unreleased]'' @ [nl, nl]"
      by blast
    have "files_after (update_changelog w) = (files w)(p \<mapsto> t)"
      unfolding written(5) pv(1) by simp
    then show ?thesis
      using pv written(1,2,3) s by (intro exI conjI; simp)
  qed
qed

lemma update_changelog_keeps_prior_releases_example:
  "printed (update_changelog example_world) = [Successfully_updated ''CHANGES.md'' ''1.2.3-4.5.6''] \<and>
   (\<exists>head section updated_bottom.
      update_link_definitions example_bottom ''1.2.3-4.5.6'' ''1.0-2.0'' = Some updated_bottom \<and>
      files_after (update_changelog example_world) ''CHANGES.md'' =
        Some (head @ ''## [1.2.3-4.5.6] 2026-11-04'' @ section @
              ''## [1.0-2.0] 2024-01-01'' @ [nl, nl] @ ''* old'' @ [nl, nl] @ updated_bottom))"
proof -
  from example_world_written obtain t where
    w: "update_changelog example_world = written example_world ''1.2.3-4.5.6'' t" by blast
  have p: "changelog_path example_world = ''CHANGES.md''"
    by (simp add: changelog_path_def example_world_def)
  have ok: "printed (update_changelog example_world) =
      [Successfully_updated ''CHANGES.md'' ''1.2.3-4.5.6'']"
    unfolding w by (simp add: p)
  from update_changelog_keeps_prior_releases [of example_world "''CHANGES.md''" "''1.2.3-4.5.6''",
      THEN mp, OF ok]
  obtain pr content upper bottom us ue prev rel body updated_bottom head where
    f: "files example_world ''CHANGES.md'' = Some content"
    and s: "split_changelog_content content = Inr (upper, bottom)"
    and u: "find_unreleased_section upper = Inr (us, ue)"
    and r: "find_previous_version upper (us, ue) = Inr (prev, rel, body)"
    and l: "update_link_definitions bottom ''1.2.3-4.5.6'' prev = Some updated_bottom"
    and a: "files_after (update_changelog example_world) =
          (files example_world)(''CHANGES.md'' \<mapsto>
             head @ ''## ['' @ ''1.2.3-4.5.6'' @ ''] '' @ today example_world @ [nl, nl] @
             add_pr_link
               (create_new_entry body
                  (new_entry_line (extract_nearcore_version ''1.2.3-4.5.6'') pr))
               (pr_link_line pr) @
             [nl, nl] @ drop rel upper @ updated_bottom)"
    by blast
  have "content = example_upper @ example_bottom" using f by (simp add: example_world_def)
  then have ub: "upper = example_upper" "bottom = example_bottom"
    using s example_stages(1) by simp_all
  then have m: "us = 7" "ue = 22" using u example_stages(2) by simp_all
  then have pr: "prev = ''1.0-2.0''" "rel = 31" using r ub example_stages(3) by simp_all
  have d: "drop rel upper = ''## [1.0-2.0] 2024-01-01'' @ [nl, nl] @ ''* old'' @ [nl, nl]"
    unfolding pr ub by (simp add: example_upper_def)
  have td: "today example_world = ''2026-11-04''" by (simp add: example_world_def)
  let ?section = "[nl, nl] @
             add_pr_link
               (create_new_entry body
                  (new_entry_line (extract_nearcore_version ''1.2.3-4.5.6'') pr))
               (pr_link_line pr) @ [nl, nl]"
  have "files_after (update_changelog example_world) ''CHANGES.md'' =
        Some (head @ ''## [1.2.3-4.5.6] 2026-11-04'' @ ?section @
              ''## [1.0-2.0] 2024-01-01'' @ [nl, nl] @ ''* old'' @ [nl, nl] @ updated_bottom)"
    unfolding a d td by simp
  moreover have "update_link_definitions example_bottom ''1.2.3-4.5.6'' ''1.0-2.0'' =
      Some updated_bottom"
    using l unfolding ub pr .
  ultimately show ?thesis using ok by blast
qed

lemma updated_content_stages:
  assumes "split_changelog_content content = Inr (upper, bottom)"
    and "find_unreleased_section upper = Inr (us, ue)"
    and "find_previous_version upper (us, ue) = Inr (prev, rel, body)"
    and "update_link_definitions bottom v prev = Some updated_bottom"
  shows "updated_content v pr date content =
     Inr (reset_unreleased
            (take ue upper @ [nl, nl] @ ''## ['' @ v @ ''] '' @ date @ [nl, nl] @
             add_pr_link
               (create_new_entry body (new_entry_line (extract_nearcore_version v) pr))
               (pr_link_line pr) @
             [nl, nl] @ drop rel upper) @
          updated_bottom)"
  using assms by (simp add: updated_content_def Let_def)

lemma mention_stages:
  "split_changelog_content (mention_upper @ mention_bottom) = Inr (mention_upper, mention_bottom)"
  "find_unreleased_section mention_upper = Inr (24, 39)"
  "find_previous_version mention_upper (24, 39) = Inr (''1.0-2.0'', 41, [])"
  "update_link_definitions mention_bottom ''1.2.3-4.5.6'' ''1.0-2.0'' =
     Some (''[Unreleased]: '' @ REPO_URL @ ''/1.2.3-4.5.6...main'' @ [nl] @
           ''[1.2.3-4.5.6]: '' @ REPO_URL @ ''/compare/1.0-2.0...1.2.3-4.5.6'' @ [nl])"
  "\<not> sublist (version_heading ''1.2.3-4.5.6'') (mention_upper @ mention_bottom)"
  by code_simp+

lemma mention_text:
  "reset_unreleased
     (take 39 mention_upper @ [nl, nl] @ ''## ['' @ ''1.2.3-4.5.6'' @ ''] '' @ ''2026-11-04'' @
      [nl, nl] @
      add_pr_link
        (create_new_entry [] (new_entry_line (extract_nearcore_version ''1.2.3-4.5.6'') ''42''))
        (pr_link_line ''42'') @
      [nl, nl] @ drop 41 mention_upper) @
   (''[Unreleased]: '' @ REPO_URL @ ''/1.2.3-4.5.6...main'' @ [nl] @
    ''[1.2.3-4.5.6]: '' @ REPO_URL @ ''/compare/1.0-2.0...1.2.3-4.5.6'' @ [nl]) =
   ''See `## [Unreleased]'' @ [nl, nl] @ ''## [Unreleased]'' @ [nl, nl] @
   ''## [1.2.3-4.5.6] 2026-11-04'' @ [nl, nl] @ ''### Changes'' @ [nl, nl] @
   ''* chore: bump nearcore to 4.5.6 in [#42]'' @ [nl, nl] @
   ''[#42]: '' @ REPO_URL @ ''/pull/42'' @ [nl, nl] @ ''## [1.0-2.0] 2024-01-01'' @ [nl, nl] @
   ''[Unreleased]: '' @ REPO_URL @ ''/1.2.3-4.5.6...main'' @ [nl] @
   ''[1.2.3-4.5.6]: '' @ REPO_URL @ ''/compare/1.0-2.0...1.2.3-4.5.6'' @ [nl]"
  by code_simp

text \<open>
  Claim C10. In a successful run the text of the prior release sections is to reappear
  unchanged in the written document, and everything but the Unreleased region, the new
  release section and the link region is to be untouched. The prior release sections do
  reappear unchanged in every successful run, as shown above. But the substitution that
  resets the Unreleased region looks for the text \<^verbatim>\<open>## [Unreleased]\<close> anywhere, not at a line
  start as the locator of the heading does: in the changelog below, whose first line
  mentions the heading, the end of that line is deleted and a second Unreleased heading is
  left in its place.
\<close>

theorem update_changelog_alters_text_before_heading:
  "printed
     (update_changelog (example_world\<lparr>files := [''CHANGES.md'' \<mapsto> mention_upper @ mention_bottom]\<rparr>)) =
   [Successfully_updated ''CHANGES.md'' ''1.2.3-4.5.6''] \<and>
   files_after
     (update_changelog (example_world\<lparr>files := [''CHANGES.md'' \<mapsto> mention_upper @ mention_bottom]\<rparr>))
     ''CHANGES.md'' =
   Some (''See `## [Unreleased]'' @ [nl, nl] @ ''## [Unreleased]'' @ [nl, nl] @
         ''## [1.2.3-4.5.6] 2026-11-04'' @ [nl, nl] @ ''### Changes'' @ [nl, nl] @
         ''* chore: bump nearcore to 4.5.6 in [#42]'' @ [nl, nl] @
         ''[#42]: '' @ REPO_URL @ ''/pull/42'' @ [nl, nl] @ ''## [1.0-2.0] 2024-01-01'' @ [nl, nl] @
         ''[Unreleased]: '' @ REPO_URL @ ''/1.2.3-4.5.6...main'' @ [nl] @
         ''[1.2.3-4.5.6]: '' @ REPO_URL @ ''/compare/1.0-2.0...1.2.3-4.5.6'' @ [nl])"
proof -
  define w where "w = example_world\<lparr>files := [''CHANGES.md'' \<mapsto> mention_upper @ mention_bottom]\<rparr>"
  define t where "t = ''See `## [Unreleased]'' @ [nl, nl] @ ''## [Unreleased]'' @ [nl, nl] @
         ''## [1.2.3-4.5.6] 2026-11-04'' @ [nl, nl] @ ''### Changes'' @ [nl, nl] @
         ''* chore: bump nearcore to 4.5.6 in [#42]'' @ [nl, nl] @
         ''[#42]: '' @ REPO_URL @ ''/pull/42'' @ [nl, nl] @ ''## [1.0-2.0] 2024-01-01'' @ [nl, nl] @
         ''[Unreleased]: '' @ REPO_URL @ ''/1.2.3-4.5.6...main'' @ [nl] @
         ''[1.2.3-4.5.6]: '' @ REPO_URL @ ''/compare/1.0-2.0...1.2.3-4.5.6'' @ [nl]"
  have c: "NEW_VERSION w = Some ''1.2.3-4.5.6''" "PR_NUMBER w = Some ''42''"
    "today w = ''2026-11-04''" "changelog_path w = ''CHANGES.md''"
    "files w ''CHANGES.md'' = Some (mention_upper @ mention_bottom)"
    by (simp_all add: w_def example_world_def changelog_path_def)
  have u: "updated_content ''1.2.3-4.5.6'' ''42'' ''2026-11-04'' (mention_upper @ mention_bottom) =
      Inr t"
    unfolding updated_content_stages [OF mention_stages(1,2,3,4)] mention_text t_def ..
  have "''42'' \<noteq> []" by simp
  note cfg = update_changelog_configured [OF c(1) example_stages(5) c(2) this]
  have "update_changelog w = written w ''1.2.3-4.5.6'' t"
    unfolding cfg c using mention_stages(5) u by simp
  then have "printed (update_changelog w) = [Successfully_updated ''CHANGES.md'' ''1.2.3-4.5.6''] \<and>
      files_after (update_changelog w) ''CHANGES.md'' = Some t"
    by (simp add: c)
  then show ?thesis unfolding w_def t_def .
qed

theorem update_changelog_alters_text_before_heading_witness:
  "\<exists>new_text.
     files_after
       (update_changelog (example_world\<lparr>files := [''CHANGES.md'' \<mapsto> mention_upper @ mention_bottom]\<rparr>))
       ''CHANGES.md'' = Some new_text \<and>
     prefix ''See `## [Unreleased]`.'' (mention_upper @ mention_bottom) \<and>
     \<not> prefix ''See `## [Unreleased]`.'' new_text"
proof -
  have 1: "prefix ''See `## [Unreleased]`.'' (mention_upper @ mention_bottom)"
    by (simp add: mention_upper_def)
  have 2: "\<not> prefix ''See `## [Unreleased]`.'' (''See `## [Unreleased]'' @ [nl, nl] @ r)" for r
    by simp
  from update_changelog_alters_text_before_heading 1 2 show ?thesis by blast
qed

text \<open>
  The runs that fail. A run in which \<^verbatim>\<open>NEW_VERSION\<close> or \<^verbatim>\<open>PR_NUMBER\<close> is missing or empty, in
  which the validator rejects the version, in which there is no changelog file, or in which
  the file holds nowhere the text of the version heading and lacks the link-definition
  section, the Unreleased heading or a prior release heading, ends with exit status 1 and one
  diagnostic message, and no file is written. Every run that does not exit with status 0
  exits with status 1, prints a diagnostic and leaves the files as they were; the files
  change only in a run that exits with status 0, and then only the changelog, replaced as a
  whole.
\<close>

lemma update_changelog_failed_runs:
  "(\<not> truthy (NEW_VERSION w) \<or> \<not> truthy (PR_NUMBER w) \<or> \<not> validate_version (NEW_VERSION w) \<or>
    files w (changelog_path w) = None \<or>
    (\<exists>v content. NEW_VERSION w = Some v \<and> files w (changelog_path w) = Some content \<and>
       \<not> sublist (version_heading v) content \<and> malformed content) \<longrightarrow>
      exit_status (update_changelog w) = 1 \<and>
      (\<exists>e. diagnostic e \<and> printed (update_changelog w) = [e]) \<and>
      files_after (update_changelog w) = files w) \<and>
   (exit_status (update_changelog w) \<noteq> 0 \<longrightarrow>
      exit_status (update_changelog w) = 1 \<and>
      (\<exists>e. diagnostic e \<and> printed (update_changelog w) = [e]) \<and>
      files_after (update_changelog w) = files w) \<and>
   (files_after (update_changelog w) \<noteq> files w \<longrightarrow>
      exit_status (update_changelog w) = 0 \<and>
      (\<exists>v new_text.
         printed (update_changelog w) = [Successfully_updated (changelog_path w) v] \<and>
         files_after (update_changelog w) = (files w)(changelog_path w \<mapsto> new_text)))"
proof -
  let ?failed = "exit_status (update_changelog w) = 1 \<and>
      (\<exists>e. diagnostic e \<and> printed (update_changelog w) = [e]) \<and>
      files_after (update_changelog w) = files w"
  from update_changelog_outcomes [of w] consider
      (failed) e where "diagnostic e" "update_changelog w = failed w e"
    | (skipped) v pr content where "NEW_VERSION w = Some v" "validate_version (Some v)"
        "PR_NUMBER w = Some pr" "pr \<noteq> []" "files w (changelog_path w) = Some content"
        "sublist (version_heading v) content" "update_changelog w = skipped w v"
    | (written) v pr content t where "NEW_VERSION w = Some v" "validate_version (Some v)"
        "PR_NUMBER w = Some pr" "pr \<noteq> []" "files w (changelog_path w) = Some content"
        "\<not> sublist (version_heading v) content"
        "updated_content v pr (today w) content = Inr t" "update_changelog w = written w v t"
    by blast
  then show ?thesis
  proof cases
    case failed
    then have "?failed" by auto
    then show ?thesis by simp
  next
    case skipped
    have v: "v \<noteq> []" using skipped(2) by (auto simp: validate_version_def)
    have 1: "truthy (NEW_VERSION w)" "truthy (PR_NUMBER w)" "validate_version (NEW_VERSION w)"
      using skipped v by (simp_all add: truthy_def)
    have 2: "\<not> (\<exists>v content. NEW_VERSION w = Some v \<and> files w (changelog_path w) = Some content \<and>
       \<not> sublist (version_heading v) content \<and> malformed content)"
      using skipped(1,5,6) by auto
    show ?thesis using 1 2 skipped(5,7) by simp
  next
    case written
    have v: "v \<noteq> []" using written(2) by (auto simp: validate_version_def)
    have 1: "truthy (NEW_VERSION w)" "truthy (PR_NUMBER w)" "validate_version (NEW_VERSION w)"
      using written v by (simp_all add: truthy_def)
    have "\<not> malformed content"
      using updated_content_malformed [of content v pr "today w"] written(7) by auto
    then have 2: "\<not> (\<exists>v content. NEW_VERSION w = Some v \<and> files w (changelog_path w) = Some content \<and>
       \<not> sublist (version_heading v) content \<and> malformed content)"
      using written(1,5) by auto
    have 3: "\<exists>v new_text.
         printed (update_changelog w) = [Successfully_updated (changelog_path w) v] \<and>
         files_after (update_changelog w) = (files w)(changelog_path w \<mapsto> new_text)"
      using written(8) by auto
    show ?thesis using 1 2 3 written(5,8) by simp
  qed
qed

lemma update_changelog_failed_runs_example:
  "exit_status (update_changelog (example_world\<lparr>PR_NUMBER := None\<rparr>)) = 1 \<and>
   files_after (update_changelog (example_world\<lparr>PR_NUMBER := None\<rparr>)) = files example_world \<and>
   exit_status (update_changelog (example_world\<lparr>NEW_VERSION := Some ''1.2.3''\<rparr>)) = 1 \<and>
   files_after (update_changelog (example_world\<lparr>NEW_VERSION := Some ''1.2.3''\<rparr>)) =
     files example_world \<and>
   exit_status (update_changelog (example_world\<lparr>files := Map.empty\<rparr>)) = 1 \<and>
   files_after (update_changelog (example_world\<lparr>files := Map.empty\<rparr>)) = Map.empty \<and>
   exit_status (update_changelog (example_world\<lparr>files := [''CHANGES.md'' \<mapsto> ''abc'']\<rparr>)) = 1 \<and>
   files_after (update_changelog (example_world\<lparr>files := [''CHANGES.md'' \<mapsto> ''abc'']\<rparr>)) =
     [''CHANGES.md'' \<mapsto> ''abc'']"
proof -
  define w1 where "w1 = example_world\<lparr>PR_NUMBER := None\<rparr>"
  define w2 where "w2 = example_world\<lparr>NEW_VERSION := Some ''1.2.3''\<rparr>"
  define w3 where "w3 = example_world\<lparr>files := Map.empty\<rparr>"
  define w4 where "w4 = example_world\<lparr>files := [''CHANGES.md'' \<mapsto> ''abc'']\<rparr>"
  have h1: "\<not> truthy (PR_NUMBER w1)" by (simp add: w1_def truthy_def)
  have "\<not> validate_version (Some ''1.2.3'')" by code_simp
  then have h2: "\<not> validate_version (NEW_VERSION w2)" by (simp add: w2_def)
  have h3: "files w3 (changelog_path w3) = None" by (simp add: w3_def)
  have nol: "\<nexists>i. begins_line ''abc'' i ''[Unreleased]:''"
  proof
    assume "\<exists>i. begins_line ''abc'' i ''[Unreleased]:''"
    then obtain i where "prefix ''[Unreleased]:'' (drop i ''abc'')"
      unfolding begins_line_def by blast
    then have "length ''[Unreleased]:'' \<le> length (drop i ''abc'')"
      by (rule prefix_length_le)
    then show False by simp
  qed
  have "\<not> sublist (version_heading ''1.2.3-4.5.6'') ''abc''" by code_simp
  moreover have "malformed ''abc''" unfolding malformed_def using nol by blast
  moreover have "NEW_VERSION w4 = Some ''1.2.3-4.5.6''" by (simp add: w4_def example_world_def)
  moreover have "files w4 (changelog_path w4) = Some ''abc''"
    by (simp add: w4_def example_world_def changelog_path_def)
  ultimately have h4: "\<exists>v content. NEW_VERSION w4 = Some v \<and>
       files w4 (changelog_path w4) = Some content \<and>
       \<not> sublist (version_heading v) content \<and> malformed content"
    by blast
  note t1 = update_changelog_failed_runs [of w1, THEN conjunct1, THEN mp]
  note t2 = update_changelog_failed_runs [of w2, THEN conjunct1, THEN mp]
  note t3 = update_changelog_failed_runs [of w3, THEN conjunct1, THEN mp]
  note t4 = update_changelog_failed_runs [of w4, THEN conjunct1, THEN mp]
  have c1: "exit_status (update_changelog w1) = 1 \<and> files_after (update_changelog w1) = files w1"
    using t1 h1 by blast
  have c2: "exit_status (update_changelog w2) = 1 \<and> files_after (update_changelog w2) = files w2"
    using t2 h2 by blast
  have c3: "exit_status (update_changelog w3) = 1 \<and> files_after (update_changelog w3) = files w3"
    using t3 h3 by blast
  have c4: "exit_status (update_changelog w4) = 1 \<and> files_after (update_changelog w4) = files w4"
    using t4 h4 by blast
  have f: "files w1 = files example_world" "files w2 = files example_world"
    "files w3 = Map.empty" "files w4 = [''CHANGES.md'' \<mapsto> ''abc'']"
    by (simp_all add: w1_def w2_def w3_def w4_def)
  show ?thesis
    using c1 c2 c3 c4 unfolding f unfolding w1_def w2_def w3_def w4_def
    by (elim conjE) (intro conjI)
qed

text \<open>The run on the small changelog for a version that ends in a line feed.\<close>

lemma newline_stages:
  "validate_version (Some (''1.2.3-4.5.6'' @ [nl]))"
  "\<not> sublist (version_heading (''1.2.3-4.5.6'' @ [nl])) (example_upper @ example_bottom)"
  "update_link_definitions example_bottom (''1.2.3-4.5.6'' @ [nl]) ''1.0-2.0'' =
     Some (''[Unreleased]: '' @ REPO_URL @ ''/1.2.3-4.5.6'' @ [nl] @
           ''[1.2.3-4.5.6'' @ [nl] @ '']: '' @ REPO_URL @ ''/compare/1.0-2.0...1.2.3-4.5.6'' @
           [nl, nl] @ ''...main'' @ [nl] @ ''[1.0-2.0]: y'' @ [nl])"
  by code_simp+

lemma newline_text:
  "reset_unreleased
     (take 22 example_upper @ [nl, nl] @ ''## ['' @ (''1.2.3-4.5.6'' @ [nl]) @ ''] '' @
      ''2026-11-04'' @ [nl, nl] @
      add_pr_link
        (create_new_entry ''* foo''
           (new_entry_line (extract_nearcore_version (''1.2.3-4.5.6'' @ [nl])) ''42''))
        (pr_link_line ''42'') @
      [nl, nl] @ drop 31 example_upper) @
   (''[Unreleased]: '' @ REPO_URL @ ''/1.2.3-4.5.6'' @ [nl] @
    ''[1.2.3-4.5.6'' @ [nl] @ '']: '' @ REPO_URL @ ''/compare/1.0-2.0...1.2.3-4.5.6'' @
    [nl, nl] @ ''...main'' @ [nl] @ ''[1.0-2.0]: y'' @ [nl]) =
   ''# Log'' @ [nl, nl] @ ''## [Unreleased]'' @ [nl, nl] @
   ''## [1.2.3-4.5.6'' @ [nl] @ ''] 2026-11-04'' @ [nl, nl] @ ''### Changes'' @ [nl, nl] @
   ''* chore: bump nearcore to 4.5.6'' @ [nl] @ '' in [#42]'' @ [nl, nl] @ ''* foo'' @ [nl, nl] @
   ''[#42]: '' @ REPO_URL @ ''/pull/42'' @ [nl, nl] @
   ''## [1.0-2.0] 2024-01-01'' @ [nl, nl] @ ''* old'' @ [nl, nl] @
   ''[Unreleased]: '' @ REPO_URL @ ''/1.2.3-4.5.6'' @ [nl] @
   ''[1.2.3-4.5.6'' @ [nl] @ '']: '' @ REPO_URL @ ''/compare/1.0-2.0...1.2.3-4.5.6'' @
   [nl, nl] @ ''...main'' @ [nl] @ ''[1.0-2.0]: y'' @ [nl]"
  by code_simp

text \<open>
  Claim C2. A run that meets a configuration error, among them a version of invalid shape,
  or a document-shape error is to end with exit status 1 and a diagnostic message, the
  changelog never written. The runs that fail do end so, as shown above, and the file is
  written only as the last step of a run that exits with status 0. But the validator accepts
  an identifier of the shape followed by a line feed, which is not of the shape: the run
  below, with such a \<^verbatim>\<open>NEW_VERSION\<close> on the small changelog, exits with status 0, reports
  success and writes the file, the line feed breaking the new release heading, the bullet
  and the two link lines.
\<close>

theorem update_changelog_writes_for_invalid_version:
  "\<not> version_shape (''1.2.3-4.5.6'' @ [nl]) \<and>
   exit_status (update_changelog (example_world\<lparr>NEW_VERSION := Some (''1.2.3-4.5.6'' @ [nl])\<rparr>)) = 0 \<and>
   printed (update_changelog (example_world\<lparr>NEW_VERSION := Some (''1.2.3-4.5.6'' @ [nl])\<rparr>)) =
     [Successfully_updated ''CHANGES.md'' (''1.2.3-4.5.6'' @ [nl])] \<and>
   files_after (update_changelog (example_world\<lparr>NEW_VERSION := Some (''1.2.3-4.5.6'' @ [nl])\<rparr>))
     ''CHANGES.md'' =
   Some (''# Log'' @ [nl, nl] @ ''## [Unreleased]'' @ [nl, nl] @
         ''## [1.2.3-4.5.6'' @ [nl] @ ''] 2026-11-04'' @ [nl, nl] @ ''### Changes'' @ [nl, nl] @
         ''* chore: bump nearcore to 4.5.6'' @ [nl] @ '' in [#42]'' @ [nl, nl] @
         ''* foo'' @ [nl, nl] @ ''[#42]: '' @ REPO_URL @ ''/pull/42'' @ [nl, nl] @
         ''## [1.0-2.0] 2024-01-01'' @ [nl, nl] @ ''* old'' @ [nl, nl] @
         ''[Unreleased]: '' @ REPO_URL @ ''/1.2.3-4.5.6'' @ [nl] @
         ''[1.2.3-4.5.6'' @ [nl] @ '']: '' @ REPO_URL @ ''/compare/1.0-2.0...1.2.3-4.5.6'' @
         [nl, nl] @ ''...main'' @ [nl] @ ''[1.0-2.0]: y'' @ [nl])"
proof -
  define v where "v = ''1.2.3-4.5.6'' @ [nl]"
  define w where "w = example_world\<lparr>NEW_VERSION := Some v\<rparr>"
  define t where "t = ''# Log'' @ [nl, nl] @ ''## [Unreleased]'' @ [nl, nl] @
         ''## [1.2.3-4.5.6'' @ [nl] @ ''] 2026-11-04'' @ [nl, nl] @ ''### Changes'' @ [nl, nl] @
         ''* chore: bump nearcore to 4.5.6'' @ [nl] @ '' in [#42]'' @ [nl, nl] @
         ''* foo'' @ [nl, nl] @ ''[#42]: '' @ REPO_URL @ ''/pull/42'' @ [nl, nl] @
         ''## [1.0-2.0] 2024-01-01'' @ [nl, nl] @ ''* old'' @ [nl, nl] @
         ''[Unreleased]: '' @ REPO_URL @ ''/1.2.3-4.5.6'' @ [nl] @
         ''[1.2.3-4.5.6'' @ [nl] @ '']: '' @ REPO_URL @ ''/compare/1.0-2.0...1.2.3-4.5.6'' @
         [nl, nl] @ ''...main'' @ [nl] @ ''[1.0-2.0]: y'' @ [nl]"
  have c: "NEW_VERSION w = Some v" "PR_NUMBER w = Some ''42''"
    "today w = ''2026-11-04''" "changelog_path w = ''CHANGES.md''"
    "files w ''CHANGES.md'' = Some (example_upper @ example_bottom)"
    by (simp_all add: w_def example_world_def changelog_path_def)
  have s: "validate_version (Some v)"
    "\<not> sublist (version_heading v) (example_upper @ example_bottom)"
    unfolding v_def by (rule newline_stages(1), rule newline_stages(2))
  have u: "updated_content v ''42'' ''2026-11-04'' (example_upper @ example_bottom) = Inr t"
    unfolding v_def updated_content_stages [OF example_stages(1,2,3) newline_stages(3)]
      newline_text t_def ..
  have "''42'' \<noteq> []" by simp
  note cfg = update_changelog_configured [OF c(1) s(1) c(2) this]
  have "update_changelog w = written w v t"
    unfolding cfg c using s(2) u by simp
  then have "exit_status (update_changelog w) = 0 \<and>
      printed (update_changelog w) = [Successfully_updated ''CHANGES.md'' v] \<and>
      files_after (update_changelog w) ''CHANGES.md'' = Some t"
    by (simp add: c)
  moreover have "\<not> version_shape (''1.2.3-4.5.6'' @ [nl])"
    by (rule trailing_newline_not_version_shape)
  ultimately show ?thesis unfolding w_def t_def v_def by (intro conjI) (elim conjE, assumption)+
qed

theorem update_changelog_writes_for_invalid_version_witness:
  "files_after (update_changelog (example_world\<lparr>NEW_VERSION := Some (''1.2.3-4.5.6'' @ [nl])\<rparr>))
     ''CHANGES.md'' \<noteq>
   files (example_world\<lparr>NEW_VERSION := Some (''1.2.3-4.5.6'' @ [nl])\<rparr>) ''CHANGES.md''"
proof -
  have 1: "files (example_world\<lparr>NEW_VERSION := Some (''1.2.3-4.5.6'' @ [nl])\<rparr>) ''CHANGES.md'' =
      Some (example_upper @ example_bottom)"
    by (simp add: example_world_def)
  have 2: "(''# Log'' @ [nl, nl] @ ''## [Unreleased]'' @ [nl, nl] @ ''## [1.2.3-4.5.6'' @ r) \<noteq>
      example_upper @ example_bottom" for r
    by (simp add: example_upper_def)
  from update_changelog_writes_for_invalid_version show ?thesis
    unfolding 1 using 2 by simp
qed

end
